theory Spec2Isabelle
  imports Complex_Main "HOL-Library.Word"
begin

unbundle bit_operations_syntax

section \<open>The grid model of maze.js\<close>

text \<open>
  JavaScript's bitwise operators work on 32-bit integers, so a wall mask is a
  \<open>32 word\<close>. Coordinates, widths and heights are the integers the source's
  JSDoc declares. The two exceptions the engine can raise in this file are a
  \<open>TypeError\<close> (a property of \<open>undefined\<close> is read or written) and a
  \<open>RangeError\<close> (the call stack is exhausted). A run that raises is over:
  its result is the exception, without the partly written grid.
\<close>

datatype js_error = TypeError | RangeError

definition WALL_TOP :: "32 word" where
  "WALL_TOP = push_bit 3 1"

definition WALL_RIGHT :: "32 word" where
  "WALL_RIGHT = push_bit 2 1"

definition WALL_BOTTOM :: "32 word" where
  "WALL_BOTTOM = push_bit 1 1"

definition WALL_LEFT :: "32 word" where
  "WALL_LEFT = push_bit 0 1"

record Coordinate =
  coord_x :: int
  coord_y :: int

record MazeCell =
  cell_x :: int
  cell_y :: int
  walls :: "32 word"
  adjacentCells :: "Coordinate list"
  visited :: bool

text \<open>The constructor \<open>MazeCell(x, y, walls)\<close>.\<close>

definition MazeCell_new :: "int \<Rightarrow> int \<Rightarrow> 32 word \<Rightarrow> MazeCell" where
  "MazeCell_new px py pwalls =
     \<lparr>cell_x = px, cell_y = py, walls = pwalls, adjacentCells = [], visited = False\<rparr>"

type_synonym grid = "MazeCell list list"

text \<open>
  A maze object: \<open>cells\<close> is \<open>undefined\<close> (\<open>None\<close>) until \<open>reset\<close> has run.
\<close>

record Maze =
  width :: int
  height :: int
  cells :: "grid option"

definition Maze_new :: "int \<Rightarrow> int \<Rightarrow> Maze" where
  "Maze_new pwidth pheight = \<lparr>width = pwidth, height = pheight, cells = None\<rparr>"

text \<open>
  Reading \<open>xs[i]\<close> in JavaScript gives \<open>undefined\<close> outside the array; reading
  \<open>cells[c.y][c.x]\<close> raises a TypeError when the row is \<open>undefined\<close> and gives
  \<open>undefined\<close> when only the column is missing.
\<close>

definition nth_js :: "'a list \<Rightarrow> int \<Rightarrow> 'a option" where
  "nth_js xs i = (if 0 \<le> i \<and> i < int (length xs) then Some (xs ! nat i) else None)"

definition cell_at :: "grid \<Rightarrow> Coordinate \<Rightarrow> js_error + MazeCell option" where
  "cell_at g c =
     (case nth_js g (coord_y c) of
        None \<Rightarrow> Inl TypeError
      | Some row \<Rightarrow> Inr (nth_js row (coord_x c)))"

text \<open>
  Cells are objects held by the grid and by nothing else; a write through a
  reference obtained from \<open>cells[c.y][c.x]\<close> is a write at that position.
\<close>

definition put_cell :: "grid \<Rightarrow> Coordinate \<Rightarrow> MazeCell \<Rightarrow> grid" where
  "put_cell g c v = g[nat (coord_y c) := (g ! nat (coord_y c))[nat (coord_x c) := v]]"

subsection \<open>getUnvisitedAdjacents\<close>

fun unvisited_loop :: "grid \<Rightarrow> Coordinate list \<Rightarrow> js_error + Coordinate list" where
  "unvisited_loop g [] = Inr []"
| "unvisited_loop g (coord # rest) =
     (case cell_at g coord of
        Inl e \<Rightarrow> Inl e
      | Inr None \<Rightarrow> Inl TypeError
      | Inr (Some cell) \<Rightarrow>
          (case unvisited_loop g rest of
             Inl e \<Rightarrow> Inl e
           | Inr unvisited \<Rightarrow>
               Inr (if \<not> visited cell
                    then \<lparr>coord_x = cell_x cell, coord_y = cell_y cell\<rparr> # unvisited
                    else unvisited)))"

definition getUnvisitedAdjacents :: "MazeCell \<Rightarrow> grid \<Rightarrow> js_error + Coordinate list" where
  "getUnvisitedAdjacents this g = unvisited_loop g (adjacentCells this)"

subsection \<open>breakCellWalls\<close>

text \<open>
  \<open>>>\<close> is the arithmetic shift on 32-bit integers, \<open><<\<close> the left shift
  that drops the bits above bit 31.
\<close>

definition breakCellWalls :: "MazeCell \<Rightarrow> MazeCell \<Rightarrow> 32 word \<Rightarrow> MazeCell \<times> MazeCell" where
  "breakCellWalls cellA cellB wall =
     (let cellA' = cellA\<lparr>walls := walls cellA AND NOT wall\<rparr>;
          wall' = (if wall = WALL_TOP \<or> wall = WALL_RIGHT
                   then signed_drop_bit 2 wall
                   else push_bit 2 wall)
      in (cellA', cellB\<lparr>walls := walls cellB AND NOT wall'\<rparr>))"

subsection \<open>reset\<close>

definition reset_cell :: "int \<Rightarrow> int \<Rightarrow> int \<Rightarrow> int \<Rightarrow> MazeCell" where
  "reset_cell w h px py =
     (MazeCell_new px py (WALL_TOP OR WALL_RIGHT OR WALL_BOTTOM OR WALL_LEFT))
       \<lparr>adjacentCells :=
          (if px - 1 \<ge> 0 then [\<lparr>coord_x = px - 1, coord_y = py\<rparr>] else []) @
          (if px + 1 < w then [\<lparr>coord_x = px + 1, coord_y = py\<rparr>] else []) @
          (if py - 1 \<ge> 0 then [\<lparr>coord_x = px, coord_y = py - 1\<rparr>] else []) @
          (if py + 1 < h then [\<lparr>coord_x = px, coord_y = py + 1\<rparr>] else [])\<rparr>"

definition reset_grid :: "int \<Rightarrow> int \<Rightarrow> grid" where
  "reset_grid w h =
     map (\<lambda>py. map (\<lambda>px. reset_cell w h (int px) (int py)) [0..<nat w]) [0..<nat h]"

definition reset :: "Maze \<Rightarrow> Maze" where
  "reset this = this\<lparr>cells := Some (reset_grid (width this) (height this))\<rparr>"

subsection \<open>generate\<close>

text \<open>
  The state a run of \<open>generate\<close> threads: the grid, the number of calls of
  \<open>Math.random\<close> made so far, and the history of the grid, newest first, with
  one entry for each operation that writes to it (marking a cell visited, one
  call of \<open>breakCellWalls\<close>).
\<close>

record run_state =
  grid :: grid
  draws :: nat
  trace :: "grid list"

definition commit :: "run_state \<Rightarrow> grid \<Rightarrow> run_state" where
  "commit s g = s\<lparr>grid := g, trace := g # trace s\<rparr>"

text \<open>Lines 184-185: \<open>current = this.cells[coord.y][coord.x]; current.visited = true\<close>.\<close>

definition visit :: "run_state \<Rightarrow> Coordinate \<Rightarrow> js_error + run_state" where
  "visit s coord =
     (case cell_at (grid s) coord of
        Inl e \<Rightarrow> Inl e
      | Inr None \<Rightarrow> Inl TypeError
      | Inr (Some current) \<Rightarrow>
          Inr (commit s (put_cell (grid s) coord (current\<lparr>visited := True\<rparr>))))"

text \<open>\<open>current.getUnvisitedAdjacents(this)\<close>, \<open>current\<close> being the cell at \<open>coord\<close>.\<close>

definition adjacents_of :: "grid \<Rightarrow> Coordinate \<Rightarrow> js_error + Coordinate list" where
  "adjacents_of g coord =
     (case cell_at g coord of
        Inl e \<Rightarrow> Inl e
      | Inr None \<Rightarrow> Inl TypeError
      | Inr (Some current) \<Rightarrow> getUnvisitedAdjacents current g)"

text \<open>
  Line 191: \<open>next = adjacents[Math.floor(Math.random() * adjacents.length)]\<close>.
  The random source is a sequence \<open>rnd\<close> of reals; the \<open>k\<close>-th call of
  \<open>Math.random\<close> returns \<open>rnd k\<close>. An index outside the array gives
  \<open>undefined\<close>, and line 192 then raises a TypeError on \<open>next.y\<close>.
\<close>

definition random_index :: "real \<Rightarrow> nat \<Rightarrow> int" where
  "random_index r n = \<lfloor>r * real n\<rfloor>"

definition choose_next :: "(nat \<Rightarrow> real) \<Rightarrow> run_state \<Rightarrow> Coordinate list
    \<Rightarrow> js_error + Coordinate \<times> run_state" where
  "choose_next rnd s adjacents =
     (case nth_js adjacents (random_index (rnd (draws s)) (length adjacents)) of
        None \<Rightarrow> Inl TypeError
      | Some next \<Rightarrow> Inr (next, s\<lparr>draws := Suc (draws s)\<rparr>))"

text \<open>One call \<open>breakCellWalls(current, nextNode, wall)\<close> on the cells at two positions.\<close>

definition break_at :: "run_state \<Rightarrow> Coordinate \<Rightarrow> Coordinate \<Rightarrow> 32 word
    \<Rightarrow> js_error + run_state" where
  "break_at s coord next wall =
     (case cell_at (grid s) coord of
        Inl e \<Rightarrow> Inl e
      | Inr None \<Rightarrow> Inl TypeError
      | Inr (Some current) \<Rightarrow>
          (case cell_at (grid s) next of
             Inl e \<Rightarrow> Inl e
           | Inr None \<Rightarrow> Inl TypeError
           | Inr (Some nextNode) \<Rightarrow>
               (case breakCellWalls current nextNode wall of
                  (cellA, cellB) \<Rightarrow>
                    Inr (commit s (put_cell (put_cell (grid s) coord cellA) next cellB)))))"

text \<open>Lines 192-209: read \<open>nextNode\<close>, then the two \<open>if\<close>/\<open>else if\<close> statements.\<close>

definition break_toward :: "run_state \<Rightarrow> Coordinate \<Rightarrow> Coordinate \<Rightarrow> js_error + run_state" where
  "break_toward s coord next =
     (case cell_at (grid s) next of
        Inl e \<Rightarrow> Inl e
      | Inr nextNode \<Rightarrow>
          (case (if coord_x next > coord_x coord then break_at s coord next WALL_RIGHT
                 else if coord_x next < coord_x coord then break_at s coord next WALL_LEFT
                 else Inr s) of
             Inl e \<Rightarrow> Inl e
           | Inr s1 \<Rightarrow>
               (if coord_y next > coord_y coord then break_at s1 coord next WALL_BOTTOM
                else if coord_y next < coord_y coord then break_at s1 coord next WALL_TOP
                else Inr s1)))"

text \<open>
  The source assigns \<open>next\<close> and \<open>nextNode\<close> (and, in
  \<open>getUnvisitedAdjacents\<close>, \<open>coord\<close> and \<open>cell\<close>) without declaring them, so
  they are globals shared by all nested calls. Each is assigned anew before it
  is read in every iteration, and no iteration reads one after its recursive
  call; \<open>current\<close>, \<open>adjacents\<close> and the parameter \<open>coord\<close> of
  \<open>generate\<close> are local. The model therefore passes them as values.

  \<open>Math.floor(Math.random() * n)\<close> is computed in floating point; for
  \<open>n\<close> up to the four neighbours of a cell and a value in \<open>[0, 1)\<close> it is an
  index in \<open>[0, n)\<close>, as the floor of the real product is. The model takes the
  real product: every sequence of indices the program can select is selected
  by the model under some random source with values in \<open>[0, 1)\<close>.
\<close>

text \<open>
  \<open>generate\<close> calls itself inside its \<open>while\<close> loop, and neither the loop nor
  the recursion is bounded on an arbitrary grid, so the function is partial:
  \<open>None\<close> is a run that never returns. \<open>Enter coord\<close> is a call
  \<open>generate(coord)\<close>; \<open>While coord adjacents\<close> is the same call at the head of
  its loop. \<open>stack\<close> is the number of nested calls of \<open>generate\<close> the engine
  still has room for; a call with no room left raises a RangeError.
\<close>

datatype frame = Enter Coordinate | While Coordinate "Coordinate list"

partial_function (option) generate_rec ::
    "(nat \<Rightarrow> real) \<Rightarrow> nat \<Rightarrow> frame \<Rightarrow> run_state \<Rightarrow> (js_error + run_state) option" where
  "generate_rec rnd stack fr s =
     (case fr of
        Enter coord \<Rightarrow>
          (if stack = 0 then Some (Inl RangeError)
           else (case visit s coord of
                   Inl e \<Rightarrow> Some (Inl e)
                 | Inr s1 \<Rightarrow>
                     (case adjacents_of (grid s1) coord of
                        Inl e \<Rightarrow> Some (Inl e)
                      | Inr adjacents \<Rightarrow> generate_rec rnd stack (While coord adjacents) s1)))
      | While coord adjacents \<Rightarrow>
          (if \<not> length adjacents > 0 then Some (Inr s)
           else (case choose_next rnd s adjacents of
                   Inl e \<Rightarrow> Some (Inl e)
                 | Inr (next, s1) \<Rightarrow>
                     (case break_toward s1 coord next of
                        Inl e \<Rightarrow> Some (Inl e)
                      | Inr s2 \<Rightarrow>
                          Option.bind (generate_rec rnd (stack - 1) (Enter next) s2)
                            (\<lambda>r. case r of
                               Inl e \<Rightarrow> Some (Inl e)
                             | Inr s3 \<Rightarrow>
                                 (case adjacents_of (grid s3) coord of
                                    Inl e \<Rightarrow> Some (Inl e)
                                  | Inr adjacents' \<Rightarrow>
                                      generate_rec rnd stack (While coord adjacents') s3))))))"

text \<open>
  \<open>this.generate(coord)\<close> on a maze object, with \<open>k\<close> calls of \<open>Math.random\<close>
  made before. The result is the maze, the number of calls of \<open>Math.random\<close>
  made, and the history of the grid in the order of the writes, the grid at
  entry first and the final grid last.
\<close>

definition generate :: "(nat \<Rightarrow> real) \<Rightarrow> nat \<Rightarrow> Maze \<Rightarrow> nat \<Rightarrow> Coordinate
    \<Rightarrow> (js_error + Maze \<times> nat \<times> grid list) option" where
  "generate rnd stack this k coord =
     (if stack = 0 then Some (Inl RangeError)
      else (case cells this of
              None \<Rightarrow> Some (Inl TypeError)
            | Some g \<Rightarrow>
                map_option
                  (map_sum id (\<lambda>s. (this\<lparr>cells := Some (grid s)\<rparr>, draws s, rev (trace s))))
                  (generate_rec rnd stack (Enter coord) \<lparr>grid = g, draws = k, trace = [g]\<rparr>)))"

declare generate_rec.simps [code]

section \<open>Vocabulary of the specification\<close>

text \<open>
  The four sides of a cell, the wall constant of each side, the side facing
  it on the neighbouring cell, and the neighbouring coordinate on that side
  (\<open>y\<close> grows downwards: the cell below \<open>(x, y)\<close> is \<open>(x, y + 1)\<close>, as
  \<open>reset\<close> and \<open>generate\<close> both have it).
\<close>

datatype side = Top | Right | Bottom | Left

fun wall_of :: "side \<Rightarrow> 32 word" where
  "wall_of Top = WALL_TOP"
| "wall_of Right = WALL_RIGHT"
| "wall_of Bottom = WALL_BOTTOM"
| "wall_of Left = WALL_LEFT"

fun bit_of :: "side \<Rightarrow> nat" where
  "bit_of Top = 3"
| "bit_of Right = 2"
| "bit_of Bottom = 1"
| "bit_of Left = 0"

fun opposite :: "side \<Rightarrow> side" where
  "opposite Top = Bottom"
| "opposite Right = Left"
| "opposite Bottom = Top"
| "opposite Left = Right"

fun move :: "side \<Rightarrow> Coordinate \<Rightarrow> Coordinate" where
  "move Top c = c\<lparr>coord_y := coord_y c - 1\<rparr>"
| "move Right c = c\<lparr>coord_x := coord_x c + 1\<rparr>"
| "move Bottom c = c\<lparr>coord_y := coord_y c + 1\<rparr>"
| "move Left c = c\<lparr>coord_x := coord_x c - 1\<rparr>"

definition in_bounds :: "int \<Rightarrow> int \<Rightarrow> Coordinate \<Rightarrow> bool" where
  "in_bounds w h c \<longleftrightarrow> 0 \<le> coord_x c \<and> coord_x c < w \<and> 0 \<le> coord_y c \<and> coord_y c < h"

text \<open>The cell at an in-bounds coordinate.\<close>

definition the_cell :: "grid \<Rightarrow> Coordinate \<Rightarrow> MazeCell" where
  "the_cell g c = g ! nat (coord_y c) ! nat (coord_x c)"

text \<open>A wall is standing when its bit is set, the test \<open>draw\<close> makes.\<close>

definition has_wall :: "grid \<Rightarrow> Coordinate \<Rightarrow> side \<Rightarrow> bool" where
  "has_wall g c d \<longleftrightarrow> walls (the_cell g c) AND wall_of d = wall_of d"

text \<open>
  The wall pair between \<open>c\<close> and its neighbour on side \<open>d\<close> is broken when
  both cells are in the grid and both facing bits are cleared.
\<close>

definition broken_pair :: "int \<Rightarrow> int \<Rightarrow> grid \<Rightarrow> Coordinate \<Rightarrow> side \<Rightarrow> bool" where
  "broken_pair w h g c d \<longleftrightarrow>
     in_bounds w h c \<and> in_bounds w h (move d c) \<and>
     \<not> has_wall g c d \<and> \<not> has_wall g (move d c) (opposite d)"

text \<open>One step through a broken wall pair, and the cells reachable by such steps.\<close>

definition passages :: "int \<Rightarrow> int \<Rightarrow> grid \<Rightarrow> (Coordinate \<times> Coordinate) set" where
  "passages w h g = {(c, c'). \<exists>d. broken_pair w h g c d \<and> c' = move d c}"

definition reachable :: "int \<Rightarrow> int \<Rightarrow> grid \<Rightarrow> Coordinate \<Rightarrow> Coordinate \<Rightarrow> bool" where
  "reachable w h g a b \<longleftrightarrow> (a, b) \<in> (passages w h g)\<^sup>*"

text \<open>
  Every pair of orthogonally adjacent cells is counted once, from its left or
  upper cell.
\<close>

definition all_coords :: "int \<Rightarrow> int \<Rightarrow> Coordinate list" where
  "all_coords w h =
     map (\<lambda>(py, px). \<lparr>coord_x = int px, coord_y = int py\<rparr>)
       (List.product [0..<nat h] [0..<nat w])"

definition broken_wall_pairs :: "int \<Rightarrow> int \<Rightarrow> grid \<Rightarrow> nat" where
  "broken_wall_pairs w h g =
     length (filter (\<lambda>(c, d). broken_pair w h g c d)
       (List.product (all_coords w h) [Right, Bottom]))"

text \<open>Wall symmetry: the two facing bits of adjacent cells agree.\<close>

definition wall_symmetry :: "int \<Rightarrow> int \<Rightarrow> grid \<Rightarrow> bool" where
  "wall_symmetry w h g \<longleftrightarrow>
     (\<forall>c d. in_bounds w h c \<and> in_bounds w h (move d c) \<longrightarrow>
        has_wall g c d = has_wall g (move d c) (opposite d))"

text \<open>A random source as \<open>Math.random\<close> is: every value lies in \<open>[0, 1)\<close>.\<close>

definition random_source :: "(nat \<Rightarrow> real) \<Rightarrow> bool" where
  "random_source rnd \<longleftrightarrow> (\<forall>k. 0 \<le> rnd k \<and> rnd k < 1)"

section \<open>Invariants of a run\<close>

text \<open>The grid has \<open>h\<close> rows of \<open>w\<close> cells.\<close>

definition shape :: "int \<Rightarrow> int \<Rightarrow> grid \<Rightarrow> bool" where
  "shape w h g \<longleftrightarrow> length g = nat h \<and> (\<forall>i < length g. length (g ! i) = nat w)"

text \<open>
  What \<open>reset\<close> fixes for good: the shape of the grid, and the coordinates and
  the neighbour list stored in every cell.
\<close>

definition neighbours :: "int \<Rightarrow> int \<Rightarrow> Coordinate \<Rightarrow> Coordinate list" where
  "neighbours w h c = adjacentCells (reset_cell w h (coord_x c) (coord_y c))"

definition static :: "int \<Rightarrow> int \<Rightarrow> grid \<Rightarrow> bool" where
  "static w h g \<longleftrightarrow>
     shape w h g \<and>
     (\<forall>c. in_bounds w h c \<longrightarrow>
        cell_x (the_cell g c) = coord_x c \<and> cell_y (the_cell g c) = coord_y c \<and>
        adjacentCells (the_cell g c) = neighbours w h c)"

definition visited_set :: "int \<Rightarrow> int \<Rightarrow> grid \<Rightarrow> Coordinate set" where
  "visited_set w h g = {c. in_bounds w h c \<and> visited (the_cell g c)}"

definition unvisited_set :: "int \<Rightarrow> int \<Rightarrow> grid \<Rightarrow> Coordinate set" where
  "unvisited_set w h g = {c. in_bounds w h c \<and> \<not> visited (the_cell g c)}"

definition edges :: "int \<Rightarrow> int \<Rightarrow> grid \<Rightarrow> (Coordinate \<times> side) set" where
  "edges w h g = {(c, d). (d = Right \<or> d = Bottom) \<and> broken_pair w h g c d}"

text \<open>
  The order in which a run moves a cell and a grid: coordinates and neighbour
  list stay, wall bits are only cleared, a visited cell stays visited.
\<close>

definition cell_shrinks :: "MazeCell \<Rightarrow> MazeCell \<Rightarrow> bool" where
  "cell_shrinks old new \<longleftrightarrow>
     cell_x new = cell_x old \<and> cell_y new = cell_y old \<and>
     adjacentCells new = adjacentCells old \<and>
     walls new AND walls old = walls new \<and>
     (visited new \<or> \<not> visited old)"

definition grid_shrinks :: "grid \<Rightarrow> grid \<Rightarrow> bool" where
  "grid_shrinks old new \<longleftrightarrow> list_all2 (list_all2 cell_shrinks) old new"

text \<open>
  Modelled from the spec: the accessor \<open>Maze.cellWalls(coord)\<close> of the
  public interface, which \<open>src/maze.js\<close> does not define (its only read of a
  mask is \<open>this.cells[y][x].walls\<close> inside \<open>draw\<close>, at coordinates of the
  grid). In the spec's words it is a ``read accessor exposing the 4-bit wall
  mask'' that ``fails with a range error on out-of-bounds coordinate'', a
  range error being raised for ``any coordinate outside
  \<open>[0,width) \<times> [0,height)\<close>''. The spec requires \<open>reset\<close> before use and
  says nothing of a maze without cells; there the read of \<open>this.cells\<close> is
  taken to fail as it does in the source.
\<close>

definition cellWalls :: "Maze \<Rightarrow> Coordinate \<Rightarrow> js_error + 32 word" where
  "cellWalls this coord =
     (if \<not> (0 \<le> coord_x coord \<and> coord_x coord < width this \<and>
              0 \<le> coord_y coord \<and> coord_y coord < height this)
      then Inl RangeError
      else (case cells this of
              None \<Rightarrow> Inl TypeError
            | Some g \<Rightarrow>
                (case cell_at g coord of
                   Inl e \<Rightarrow> Inl e
                 | Inr None \<Rightarrow> Inl TypeError
                 | Inr (Some cell) \<Rightarrow> Inr (walls cell))))"

text \<open>A sequence of calls on one maze object; an exception ends it.\<close>

datatype maze_op = Reset | Generate Coordinate

fun run_ops :: "(nat \<Rightarrow> real) \<Rightarrow> nat \<Rightarrow> maze_op list \<Rightarrow> Maze \<Rightarrow> nat
    \<Rightarrow> (js_error + Maze \<times> nat) option" where
  "run_ops rnd stack [] this k = Some (Inr (this, k))"
| "run_ops rnd stack (Reset # ops) this k = run_ops rnd stack ops (reset this) k"
| "run_ops rnd stack (Generate coord # ops) this k =
     (case generate rnd stack this k coord of
        None \<Rightarrow> None
      | Some (Inl e) \<Rightarrow> Some (Inl e)
      | Some (Inr (this', k', tr)) \<Rightarrow> run_ops rnd stack ops this' k')"

text \<open>The history of a run is ordered: every grid in it shrinks to every later one.\<close>

definition ordered_trace :: "run_state \<Rightarrow> bool" where
  "ordered_trace s \<longleftrightarrow>
     trace s \<noteq> [] \<and> hd (trace s) = grid s \<and>
     sorted_wrt (\<lambda>new old. grid_shrinks old new) (trace s)"

text \<open>A later state of a run: the history has grown at its newer end and is still ordered.\<close>

definition advances :: "run_state \<Rightarrow> run_state \<Rightarrow> bool" where
  "advances s s' \<longleftrightarrow>
     (\<exists>new. trace s' = new @ trace s) \<and> (ordered_trace s \<longrightarrow> ordered_trace s')"

text \<open>The two writes of a run, on the grid: marking a cell, breaking a wall pair.\<close>

definition mark :: "grid \<Rightarrow> Coordinate \<Rightarrow> grid" where
  "mark g c = put_cell g c ((the_cell g c)\<lparr>visited := True\<rparr>)"

definition broken :: "grid \<Rightarrow> Coordinate \<Rightarrow> side \<Rightarrow> grid" where
  "broken g c d =
     put_cell
       (put_cell g c ((the_cell g c)\<lparr>walls := walls (the_cell g c) AND NOT (wall_of d)\<rparr>))
       (move d c)
       ((the_cell g (move d c))
          \<lparr>walls := walls (the_cell g (move d c)) AND NOT (wall_of (opposite d))\<rparr>)"

text \<open>
  The invariant of the traversal: the static part of the grid is as \<open>reset\<close>
  built it, the walls are symmetric now and were at every earlier write, and
  every cell not yet visited, the cell being entered apart, has its four
  walls.
\<close>

definition maze_inv :: "int \<Rightarrow> int \<Rightarrow> run_state \<Rightarrow> bool" where
  "maze_inv w h s \<longleftrightarrow>
     static w h (grid s) \<and> wall_symmetry w h (grid s) \<and>
     (\<forall>g \<in> set (trace s). wall_symmetry w h g)"

definition fresh_except :: "int \<Rightarrow> int \<Rightarrow> grid \<Rightarrow> Coordinate set \<Rightarrow> bool" where
  "fresh_except w h g X \<longleftrightarrow>
     (\<forall>c d. in_bounds w h c \<and> \<not> visited (the_cell g c) \<and> c \<notin> X \<longrightarrow> has_wall g c d)"

text \<open>
  What a call of \<open>generate\<close> at \<open>c\<close>, or the rest of its loop, has done when it
  returns: nothing visited is lost and no passage is closed; every cell it
  has newly visited is reachable from \<open>c\<close> and has all its neighbours
  visited, as \<open>c\<close> has; and it has broken one wall pair for each newly visited
  cell other than the cell it entered.
\<close>

definition explored :: "int \<Rightarrow> int \<Rightarrow> Coordinate \<Rightarrow> run_state \<Rightarrow> run_state \<Rightarrow> bool" where
  "explored w h c s s' \<longleftrightarrow>
     maze_inv w h s' \<and> fresh_except w h (grid s') {} \<and>
     c \<in> visited_set w h (grid s') \<and>
     visited_set w h (grid s) \<subseteq> visited_set w h (grid s') \<and>
     passages w h (grid s) \<subseteq> passages w h (grid s') \<and>
     (\<forall>a \<in> visited_set w h (grid s') - visited_set w h (grid s).
        reachable w h (grid s') c a \<and>
        (\<forall>d. in_bounds w h (move d a) \<longrightarrow> move d a \<in> visited_set w h (grid s'))) \<and>
     (\<forall>d. in_bounds w h (move d c) \<longrightarrow> move d c \<in> visited_set w h (grid s')) \<and>
     card (edges w h (grid s')) + card (visited_set w h (grid s))
       + (if c \<in> visited_set w h (grid s) then 0 else 1)
       = card (edges w h (grid s)) + card (visited_set w h (grid s'))"

text \<open>What a frame needs to start from.\<close>

definition frame_ready :: "int \<Rightarrow> int \<Rightarrow> nat \<Rightarrow> frame \<Rightarrow> run_state \<Rightarrow> bool" where
  "frame_ready w h stack fr s \<longleftrightarrow>
     (case fr of
        Enter c \<Rightarrow>
          in_bounds w h c \<and> c \<notin> visited_set w h (grid s) \<and>
          fresh_except w h (grid s) {c} \<and>
          card (unvisited_set w h (grid s)) \<le> stack
      | While c adjacents \<Rightarrow>
          in_bounds w h c \<and> c \<in> visited_set w h (grid s) \<and>
          fresh_except w h (grid s) {} \<and>
          adjacents_of (grid s) c = Inr adjacents \<and>
          card (unvisited_set w h (grid s)) < stack)"

fun frame_coord :: "frame \<Rightarrow> Coordinate" where
  "frame_coord (Enter c) = c"
| "frame_coord (While c adjacents) = c"

text \<open>
  A cell has at most four neighbours, so a draw selects among one to four
  candidates. A random source always selects index 0 when each of its values
  does so for each such number of candidates; two sources make the same
  choices when each pair of values selects the same index for each such
  number.
\<close>

definition first_index :: "(nat \<Rightarrow> real) \<Rightarrow> bool" where
  "first_index rnd \<longleftrightarrow> (\<forall>k n. 1 \<le> n \<and> n \<le> 4 \<longrightarrow> random_index (rnd k) n = 0)"

definition same_indices :: "(nat \<Rightarrow> real) \<Rightarrow> (nat \<Rightarrow> real) \<Rightarrow> bool" where
  "same_indices rnd rnd' \<longleftrightarrow>
     (\<forall>k n. 1 \<le> n \<and> n \<le> 4 \<longrightarrow> random_index (rnd k) n = random_index (rnd' k) n)"

text \<open>Every cell of the grid lists at most four neighbours.\<close>

definition few_neighbours :: "grid \<Rightarrow> bool" where
  "few_neighbours g \<longleftrightarrow>
     (\<forall>row \<in> set g. \<forall>cell \<in> set row. length (adjacentCells cell) \<le> 4)"

text \<open>
  The writes of the depth-first run on the 2 by 2 grid from \<open>(0, 0)\<close> that
  always takes the first candidate: enter \<open>(0, 0)\<close>, break its right wall,
  enter \<open>(1, 0)\<close>, break its bottom wall, enter \<open>(1, 1)\<close>, break its left wall,
  enter \<open>(0, 1)\<close>.
\<close>

definition trace_2x2 :: "grid list" where
  "trace_2x2 =
     (let c00 = \<lparr>coord_x = 0, coord_y = 0\<rparr>; c10 = \<lparr>coord_x = 1, coord_y = 0\<rparr>;
          c11 = \<lparr>coord_x = 1, coord_y = 1\<rparr>; c01 = \<lparr>coord_x = 0, coord_y = 1\<rparr>;
          g0 = reset_grid 2 2;
          g1 = mark g0 c00;
          g2 = broken g1 c00 Right;
          g3 = mark g2 c10;
          g4 = broken g3 c10 Bottom;
          g5 = mark g4 c11;
          g6 = broken g5 c11 Left;
          g7 = mark g6 c01
      in [g0, g1, g2, g3, g4, g5, g6, g7])"

section \<open>The wall encoding\<close>


lemma wall_values: "WALL_TOP = 8" "WALL_RIGHT = 4" "WALL_BOTTOM = 2" "WALL_LEFT = 1"
  by (simp_all add: WALL_TOP_def WALL_RIGHT_def WALL_BOTTOM_def WALL_LEFT_def)

lemma wall_of_exp: "wall_of d = 2 ^ bit_of d"
  by (cases d) (simp_all add: wall_values)

lemma bit_wall_of: "bit (wall_of d) n \<longleftrightarrow> n = bit_of d"
proof -
  have "bit_of d < 32"
    by (cases d) simp_all
  then show ?thesis
    by (auto simp add: wall_of_exp bit_exp_iff)
qed

lemma and_wall_iff: "(m AND wall_of d = wall_of d) \<longleftrightarrow> bit m (bit_of d)"
proof
  assume "m AND wall_of d = wall_of d"
  then have "bit (m AND wall_of d) (bit_of d) = bit (wall_of d) (bit_of d)"
    by simp
  then show "bit m (bit_of d)"
    by (simp add: bit_and_iff bit_wall_of)
next
  assume "bit m (bit_of d)"
  then show "m AND wall_of d = wall_of d"
    by (intro bit_word_eqI) (auto simp add: bit_and_iff bit_wall_of)
qed

lemma opposite_wall_shift:
  "(if wall_of d = WALL_TOP \<or> wall_of d = WALL_RIGHT then signed_drop_bit 2 (wall_of d)
    else push_bit 2 (wall_of d)) = wall_of (opposite d)"
  by (cases d) (simp_all add: wall_values)

lemma bit_of_inj: "bit_of d = bit_of e \<longleftrightarrow> d = e"
  by (cases d; cases e) simp_all

lemma bit_clear_wall:
  "bit (m AND NOT (wall_of d)) n \<longleftrightarrow> bit m n \<and> n \<noteq> bit_of d"
  by (auto simp add: bit_and_iff bit_not_iff bit_wall_of dest: bit_imp_le_length)

lemma breakCellWalls_side:
  "breakCellWalls cellA cellB (wall_of d) =
     (cellA\<lparr>walls := walls cellA AND NOT (wall_of d)\<rparr>,
      cellB\<lparr>walls := walls cellB AND NOT (wall_of (opposite d))\<rparr>)"
  unfolding breakCellWalls_def Let_def opposite_wall_shift ..

text \<open>
  Claim C4. The four wall constants are the values 8, 4, 2 and 1, that is
  bits 3, 2, 1 and 0 of the mask; the test \<open>draw\<close> makes for a wall reads
  exactly that bit; a cell built by \<open>reset\<close> has mask 15, and the mask with
  all four walls cleared is 0.
\<close>

theorem wall_bit_encoding:
  "WALL_TOP = 8 \<and> WALL_RIGHT = 4 \<and> WALL_BOTTOM = 2 \<and> WALL_LEFT = 1 \<and>
   (\<forall>n. bit WALL_TOP n = (n = 3)) \<and> (\<forall>n. bit WALL_RIGHT n = (n = 2)) \<and>
   (\<forall>n. bit WALL_BOTTOM n = (n = 1)) \<and> (\<forall>n. bit WALL_LEFT n = (n = 0)) \<and>
   (\<forall>m. (m AND WALL_TOP = WALL_TOP) = bit m 3) \<and>
   (\<forall>m. (m AND WALL_RIGHT = WALL_RIGHT) = bit m 2) \<and>
   (\<forall>m. (m AND WALL_BOTTOM = WALL_BOTTOM) = bit m 1) \<and>
   (\<forall>m. (m AND WALL_LEFT = WALL_LEFT) = bit m 0) \<and>
   walls (reset_cell w h px py) = 15 \<and>
   (15 :: 32 word) AND NOT WALL_TOP AND NOT WALL_RIGHT AND NOT WALL_BOTTOM AND NOT WALL_LEFT = 0"
proof -
  have vals: "WALL_TOP = 8 \<and> WALL_RIGHT = 4 \<and> WALL_BOTTOM = 2 \<and> WALL_LEFT = 1"
    by (simp add: wall_values)
  have bits: "bit WALL_TOP n = (n = 3)" "bit WALL_RIGHT n = (n = 2)"
    "bit WALL_BOTTOM n = (n = 1)" "bit WALL_LEFT n = (n = 0)" for n
    using bit_wall_of [of Top n] bit_wall_of [of Right n]
      bit_wall_of [of Bottom n] bit_wall_of [of Left n]
    by simp_all
  have tests: "(m AND WALL_TOP = WALL_TOP) = bit m 3" "(m AND WALL_RIGHT = WALL_RIGHT) = bit m 2"
    "(m AND WALL_BOTTOM = WALL_BOTTOM) = bit m 1" "(m AND WALL_LEFT = WALL_LEFT) = bit m 0" for m
    using and_wall_iff [of m Top] and_wall_iff [of m Right]
      and_wall_iff [of m Bottom] and_wall_iff [of m Left]
    by simp_all
  have full: "walls (reset_cell w h px py) = 15"
    by (simp add: reset_cell_def MazeCell_new_def wall_values)
  have open_cell:
    "(15 :: 32 word) AND NOT WALL_TOP AND NOT WALL_RIGHT AND NOT WALL_BOTTOM AND NOT WALL_LEFT = 0"
    by (simp add: wall_values)
  from vals bits tests full open_cell show ?thesis
    by simp
qed

text \<open>
  Claim C3. For each of the four walls, one call of \<open>breakCellWalls\<close> on two
  cells clears the bit of that wall on the first cell and the bit of the
  opposite wall (top and bottom, left and right swapped) on the second cell;
  every other bit of the two masks and every other field of the two cells is
  as before. The adjacency of the two cells is the caller's obligation and
  plays no part in what the function does.
\<close>

theorem breakCellWalls_clears_facing_bits:
  "(case breakCellWalls cellA cellB (wall_of d) of
      (cellA', cellB') \<Rightarrow>
        (\<forall>n. bit (walls cellA') n = (bit (walls cellA) n \<and> n \<noteq> bit_of d)) \<and>
        (\<forall>n. bit (walls cellB') n = (bit (walls cellB) n \<and> n \<noteq> bit_of (opposite d))) \<and>
        cellA' = cellA\<lparr>walls := walls cellA'\<rparr> \<and>
        cellB' = cellB\<lparr>walls := walls cellB'\<rparr>)"
  by (simp add: breakCellWalls_side bit_clear_wall)

section \<open>Reading and writing cells\<close>

lemma coord_eq_iff: "a = b \<longleftrightarrow> coord_x a = coord_x b \<and> coord_y a = coord_y b"
  for a b :: Coordinate
  by auto

lemma nth_js_in: "0 \<le> i \<Longrightarrow> i < int (length xs) \<Longrightarrow> nth_js xs i = Some (xs ! nat i)"
  by (simp add: nth_js_def)

lemma nth_js_out: "\<not> (0 \<le> i \<and> i < int (length xs)) \<Longrightarrow> nth_js xs i = None"
  by (simp add: nth_js_def)

lemma shape_row: "shape w h g \<Longrightarrow> 0 \<le> j \<Longrightarrow> j < h \<Longrightarrow> length (g ! nat j) = nat w"
  by (simp add: shape_def)

lemma cell_at_in:
  assumes "shape w h g" and "in_bounds w h c"
  shows "cell_at g c = Inr (Some (the_cell g c))"
proof -
  from assms have y: "0 \<le> coord_y c" "coord_y c < int (length g)"
    by (auto simp add: shape_def in_bounds_def)
  from assms have "length (g ! nat (coord_y c)) = nat w"
    by (intro shape_row) (auto simp add: in_bounds_def)
  with assms have x: "0 \<le> coord_x c" "coord_x c < int (length (g ! nat (coord_y c)))"
    by (auto simp add: in_bounds_def)
  show ?thesis
    by (simp add: cell_at_def nth_js_in y x the_cell_def)
qed

lemma cell_at_out:
  assumes "shape w h g" and "\<not> in_bounds w h c"
  shows "cell_at g c = Inl TypeError \<or> cell_at g c = Inr None"
proof (cases "0 \<le> coord_y c \<and> coord_y c < int (length g)")
  case False
  then show ?thesis
    by (simp add: cell_at_def nth_js_out)
next
  case True
  with assms(1) have yh: "coord_y c < h"
    by (auto simp add: shape_def split: if_splits)
  with assms(1) True have len: "length (g ! nat (coord_y c)) = nat w"
    by (intro shape_row) auto
  with True assms(2) yh have "\<not> (0 \<le> coord_x c \<and> coord_x c < int (length (g ! nat (coord_y c))))"
    by (auto simp add: in_bounds_def)
  then show ?thesis using True
    by (simp add: cell_at_def nth_js_in nth_js_out)
qed

lemma shape_reset_grid: "shape w h (reset_grid w h)"
  by (auto simp add: shape_def reset_grid_def)

lemma the_cell_reset_grid:
  "in_bounds w h c \<Longrightarrow> the_cell (reset_grid w h) c = reset_cell w h (coord_x c) (coord_y c)"
  by (simp add: the_cell_def reset_grid_def in_bounds_def)

lemma visit_out:
  "shape w h (grid s) \<Longrightarrow> \<not> in_bounds w h c \<Longrightarrow> visit s c = Inl TypeError"
  using cell_at_out [of w h "grid s" c] by (auto simp add: visit_def)

lemma generate_rec_out:
  "shape w h (grid s) \<Longrightarrow> \<not> in_bounds w h c \<Longrightarrow> 0 < stack \<Longrightarrow>
   generate_rec rnd stack (Enter c) s = Some (Inl TypeError)"
  by (subst generate_rec.simps) (simp add: visit_out)

text \<open>
  Claim C6, as the code has it. On a maze that has been reset, a call of
  \<open>generate\<close> with a start coordinate outside \<open>[0, width) \<times> [0, height)\<close>,
  made with room on the stack for it, fails, and the failure is the engine's
  TypeError for a property of \<open>undefined\<close>, not a range error: the source has
  no bounds check.
\<close>

theorem generate_out_of_range:
  "0 < stack \<Longrightarrow> \<not> in_bounds (width this) (height this) coord \<Longrightarrow>
   generate rnd stack (reset this) k coord = Some (Inl TypeError)"
  by (simp add: generate_def reset_def shape_reset_grid
      generate_rec_out [where w = "width this" and h = "height this"])

theorem generate_out_of_range_witness:
  "0 < (1 :: nat) \<and>
   \<not> in_bounds (width (Maze_new 2 2)) (height (Maze_new 2 2)) \<lparr>coord_x = -1, coord_y = 0\<rparr> \<and>
   generate (\<lambda>k. 0) 1 (reset (Maze_new 2 2)) 0 \<lparr>coord_x = -1, coord_y = 0\<rparr>
     = Some (Inl TypeError)"
  using generate_out_of_range [of 1 "Maze_new 2 2" "\<lparr>coord_x = -1, coord_y = 0\<rparr>" "\<lambda>k. 0" 0]
  by (simp add: in_bounds_def Maze_new_def)

theorem generate_range_error_counterexample:
  "generate (\<lambda>k. 0) 1 (reset (Maze_new 2 2)) 0 \<lparr>coord_x = -1, coord_y = 0\<rparr>
     \<noteq> Some (Inl RangeError)"
  by code_simp

section \<open>Moves and writes on the grid\<close>

lemma opposite_opposite: "opposite (opposite d) = d"
  by (cases d) simp_all

lemma opposite_eq_iff: "opposite e = d \<longleftrightarrow> e = opposite d"
  by (cases d; cases e) simp_all

lemma opposite_inj: "opposite e = opposite d \<longleftrightarrow> e = d"
  by (cases d; cases e) simp_all

lemma opposite_neq: "opposite d \<noteq> d"
  by (cases d) simp_all

lemma move_back: "move (opposite d) (move d c) = c"
  by (cases d) simp_all

lemma move_inj: "move d a = move d b \<longleftrightarrow> a = b"
  by (cases d) (auto simp add: coord_eq_iff)

lemma move_neq: "move d c \<noteq> c"
  by (cases d) (auto simp add: coord_eq_iff)

lemma neq_move: "c \<noteq> move d c"
  by (cases d) (auto simp add: coord_eq_iff)

lemma move_eq_iff: "move e a = c \<longleftrightarrow> a = move (opposite e) c"
  by (cases e) (auto simp add: coord_eq_iff)

lemma shape_put_cell:
  assumes "shape w h g"
  shows "shape w h (put_cell g c v)"
proof (cases "nat (coord_y c) < length g")
  case True
  with assms show ?thesis
    by (auto simp add: shape_def put_cell_def nth_list_update)
next
  case False
  then have "put_cell g c v = g"
    by (simp add: put_cell_def list_update_beyond)
  with assms show ?thesis
    by simp
qed

lemma the_cell_put_cell:
  assumes "shape w h g" and "in_bounds w h c" and "in_bounds w h a"
  shows "the_cell (put_cell g c v) a = (if a = c then v else the_cell g a)"
proof -
  from assms have lg: "nat (coord_y c) < length g"
    by (auto simp add: shape_def in_bounds_def)
  from assms have lr: "nat (coord_x c) < length (g ! nat (coord_y c))"
    using shape_row [of w h g "coord_y c"] by (auto simp add: in_bounds_def)
  show ?thesis
  proof (cases "coord_y a = coord_y c")
    case False
    with assms have "nat (coord_y c) \<noteq> nat (coord_y a)"
      by (auto simp add: in_bounds_def)
    with False show ?thesis
      by (auto simp add: the_cell_def put_cell_def)
  next
    case y: True
    show ?thesis
    proof (cases "coord_x a = coord_x c")
      case True
      with y have "a = c"
        by (simp add: coord_eq_iff)
      with lg lr show ?thesis
        by (simp add: the_cell_def put_cell_def)
    next
      case False
      with assms have "nat (coord_x c) \<noteq> nat (coord_x a)"
        by (auto simp add: in_bounds_def)
      with False y lg show ?thesis
        by (auto simp add: the_cell_def put_cell_def)
    qed
  qed
qed

lemma the_cell_mark:
  "shape w h g \<Longrightarrow> in_bounds w h c \<Longrightarrow> in_bounds w h a \<Longrightarrow>
   the_cell (mark g c) a = (if a = c then (the_cell g c)\<lparr>visited := True\<rparr> else the_cell g a)"
  by (simp add: mark_def the_cell_put_cell [where w = w and h = h])

lemma shape_mark: "shape w h g \<Longrightarrow> shape w h (mark g c)"
  by (simp add: mark_def shape_put_cell)

lemma the_cell_broken:
  "shape w h g \<Longrightarrow> in_bounds w h c \<Longrightarrow> in_bounds w h (move d c) \<Longrightarrow> in_bounds w h a \<Longrightarrow>
   the_cell (broken g c d) a =
     (if a = move d c
      then (the_cell g (move d c))
             \<lparr>walls := walls (the_cell g (move d c)) AND NOT (wall_of (opposite d))\<rparr>
      else if a = c then (the_cell g c)\<lparr>walls := walls (the_cell g c) AND NOT (wall_of d)\<rparr>
      else the_cell g a)"
  by (simp add: broken_def the_cell_put_cell [where w = w and h = h] shape_put_cell move_neq neq_move)

lemma shape_broken: "shape w h g \<Longrightarrow> shape w h (broken g c d)"
  by (simp add: broken_def shape_put_cell)

lemma has_wall_bit: "has_wall g c d \<longleftrightarrow> bit (walls (the_cell g c)) (bit_of d)"
  by (simp add: has_wall_def and_wall_iff)

lemma has_wall_mark:
  "shape w h g \<Longrightarrow> in_bounds w h c \<Longrightarrow> in_bounds w h a \<Longrightarrow>
   has_wall (mark g c) a e = has_wall g a e"
  by (simp add: has_wall_def the_cell_mark [where w = w and h = h])

lemma has_wall_broken:
  "shape w h g \<Longrightarrow> in_bounds w h c \<Longrightarrow> in_bounds w h (move d c) \<Longrightarrow> in_bounds w h a \<Longrightarrow>
   has_wall (broken g c d) a e \<longleftrightarrow>
     has_wall g a e \<and> \<not> (a = c \<and> e = d) \<and> \<not> (a = move d c \<and> e = opposite d)"
  by (auto simp add: has_wall_bit the_cell_broken [where w = w and h = h] bit_clear_wall bit_of_inj
      move_neq neq_move)

lemma visited_mark:
  "shape w h g \<Longrightarrow> in_bounds w h c \<Longrightarrow> in_bounds w h a \<Longrightarrow>
   visited (the_cell (mark g c) a) \<longleftrightarrow> a = c \<or> visited (the_cell g a)"
  by (simp add: the_cell_mark [where w = w and h = h])

lemma visited_broken:
  "shape w h g \<Longrightarrow> in_bounds w h c \<Longrightarrow> in_bounds w h (move d c) \<Longrightarrow> in_bounds w h a \<Longrightarrow>
   visited (the_cell (broken g c d) a) = visited (the_cell g a)"
  by (simp add: the_cell_broken [where w = w and h = h])

lemma static_mark: "static w h g \<Longrightarrow> in_bounds w h c \<Longrightarrow> static w h (mark g c)"
  by (auto simp add: static_def shape_mark the_cell_mark [where w = w and h = h])

lemma static_broken:
  "static w h g \<Longrightarrow> in_bounds w h c \<Longrightarrow> in_bounds w h (move d c) \<Longrightarrow> static w h (broken g c d)"
  by (auto simp add: static_def shape_broken the_cell_broken [where w = w and h = h])


lemma visit_in:
  "shape w h (grid s) \<Longrightarrow> in_bounds w h c \<Longrightarrow> visit s c = Inr (commit s (mark (grid s) c))"
  by (simp add: visit_def cell_at_in [where w = w and h = h] mark_def)

lemma in_bounds_move:
  "in_bounds w h c \<Longrightarrow> in_bounds w h (move Left c) \<longleftrightarrow> coord_x c - 1 \<ge> 0"
  "in_bounds w h c \<Longrightarrow> in_bounds w h (move Right c) \<longleftrightarrow> coord_x c + 1 < w"
  "in_bounds w h c \<Longrightarrow> in_bounds w h (move Top c) \<longleftrightarrow> coord_y c - 1 \<ge> 0"
  "in_bounds w h c \<Longrightarrow> in_bounds w h (move Bottom c) \<longleftrightarrow> coord_y c + 1 < h"
  by (auto simp add: in_bounds_def)

lemma neighbours_moves:
  assumes "in_bounds w h c"
  shows "neighbours w h c =
    filter (in_bounds w h) [move Left c, move Right c, move Top c, move Bottom c]"
  using assms
  by (simp add: neighbours_def reset_cell_def MazeCell_new_def in_bounds_def)

lemma some_move_iff:
  "(\<exists>d. n = move d c) \<longleftrightarrow> n \<in> set [move Left c, move Right c, move Top c, move Bottom c]"
proof
  assume "\<exists>d. n = move d c"
  then obtain d where "n = move d c" ..
  then show "n \<in> set [move Left c, move Right c, move Top c, move Bottom c]"
    by (cases d) simp_all
next
  assume "n \<in> set [move Left c, move Right c, move Top c, move Bottom c]"
  then have "n = move Left c \<or> n = move Right c \<or> n = move Top c \<or> n = move Bottom c"
    by (simp del: move.simps)
  then show "\<exists>d. n = move d c"
    by blast
qed

lemma neighbours_set:
  assumes "in_bounds w h c"
  shows "set (neighbours w h c) = {n. in_bounds w h n \<and> (\<exists>d. n = move d c)}"
  unfolding neighbours_moves [OF assms] some_move_iff set_filter
  by blast

lemma unvisited_loop_in:
  assumes "static w h g"
  shows "\<forall>n \<in> set ns. in_bounds w h n \<Longrightarrow>
    unvisited_loop g ns = Inr (filter (\<lambda>n. \<not> visited (the_cell g n)) ns)"
proof (induction ns)
  case Nil
  show ?case by simp
next
  case (Cons n ns)
  then have n: "in_bounds w h n"
    by simp
  with assms have "cell_at g n = Inr (Some (the_cell g n))"
    by (simp add: static_def cell_at_in [where w = w and h = h])
  moreover from assms n
  have "\<lparr>coord_x = cell_x (the_cell g n), coord_y = cell_y (the_cell g n)\<rparr> = n"
    by (simp add: static_def)
  ultimately show ?case
    using Cons by simp
qed

lemma adjacents_of_in:
  assumes "static w h g" and "in_bounds w h c"
  shows "adjacents_of g c = Inr (filter (\<lambda>n. \<not> visited (the_cell g n)) (neighbours w h c))"
proof -
  from assms have "cell_at g c = Inr (Some (the_cell g c))"
    by (simp add: static_def cell_at_in [where w = w and h = h])
  moreover from assms have "adjacentCells (the_cell g c) = neighbours w h c"
    by (simp add: static_def)
  moreover have "\<forall>n \<in> set (neighbours w h c). in_bounds w h n"
    by (simp add: neighbours_set [OF assms(2)])
  ultimately show ?thesis
    using unvisited_loop_in [OF assms(1), of "neighbours w h c"]
    by (simp add: adjacents_of_def getUnvisitedAdjacents_def)
qed

lemma random_index_range:
  assumes "0 \<le> r" and "r < 1" and "0 < n"
  shows "0 \<le> random_index r n \<and> random_index r n < int n"
proof -
  from assms have "0 \<le> r * real n"
    by simp
  moreover from assms have "r * real n < real n"
    by simp
  ultimately show ?thesis
    by (simp add: random_index_def floor_less_iff)
qed

lemma choose_next_in:
  assumes "random_source rnd" and "adjacents \<noteq> []"
  shows "\<exists>next \<in> set adjacents.
    choose_next rnd s adjacents = Inr (next, s\<lparr>draws := Suc (draws s)\<rparr>)"
proof -
  let ?i = "random_index (rnd (draws s)) (length adjacents)"
  from assms have "0 \<le> ?i \<and> ?i < int (length adjacents)"
    by (intro random_index_range) (auto simp add: random_source_def)
  then have "nth_js adjacents ?i = Some (adjacents ! nat ?i)" and "nat ?i < length adjacents"
    by (simp_all add: nth_js_in nat_less_iff)
  then show ?thesis
    by (auto simp add: choose_next_def)
qed

lemma break_at_in:
  "shape w h (grid s) \<Longrightarrow> in_bounds w h c \<Longrightarrow> in_bounds w h (move d c) \<Longrightarrow>
   break_at s c (move d c) (wall_of d) = Inr (commit s (broken (grid s) c d))"
  by (simp add: break_at_def cell_at_in [where w = w and h = h] breakCellWalls_side broken_def)

lemma break_toward_in:
  assumes "shape w h (grid s)" and "in_bounds w h c" and "in_bounds w h (move d c)"
  shows "break_toward s c (move d c) = Inr (commit s (broken (grid s) c d))"
proof -
  note at = break_at_in [OF assms]
  from assms have "cell_at (grid s) (move d c) = Inr (Some (the_cell (grid s) (move d c)))"
    by (simp add: cell_at_in [where w = w and h = h])
  with at show ?thesis
    by (cases d) (simp_all add: break_toward_def)
qed

section \<open>Visited cells, passages and edges under the two writes\<close>

lemma in_bounds_image:
  "{c. in_bounds w h c} = (\<lambda>(px, py). \<lparr>coord_x = px, coord_y = py\<rparr>) ` ({0..<w} \<times> {0..<h})"
proof (intro set_eqI iffI)
  fix c
  assume "c \<in> {c. in_bounds w h c}"
  then have "(coord_x c, coord_y c) \<in> {0..<w} \<times> {0..<h}"
    by (simp add: in_bounds_def)
  moreover have "c = (\<lambda>(px, py). \<lparr>coord_x = px, coord_y = py\<rparr>) (coord_x c, coord_y c)"
    by simp
  ultimately show "c \<in> (\<lambda>(px, py). \<lparr>coord_x = px, coord_y = py\<rparr>) ` ({0..<w} \<times> {0..<h})"
    by (rule image_eqI [rotated])
next
  fix c
  assume "c \<in> (\<lambda>(px, py). \<lparr>coord_x = px, coord_y = py\<rparr>) ` ({0..<w} \<times> {0..<h})"
  then show "c \<in> {c. in_bounds w h c}"
    by (auto simp add: in_bounds_def)
qed

lemma finite_in_bounds: "finite {c. in_bounds w h c}"
  unfolding in_bounds_image by simp

lemma card_in_bounds:
  assumes "0 \<le> w" and "0 \<le> h"
  shows "card {c. in_bounds w h c} = nat (w * h)"
proof -
  have "inj_on (\<lambda>(px, py). \<lparr>coord_x = px, coord_y = py\<rparr>) ({0..<w} \<times> {0..<h})"
    by (auto simp add: inj_on_def)
  then have "card {c. in_bounds w h c} = card ({0..<w} \<times> {0..<h})"
    unfolding in_bounds_image by (rule card_image)
  also have "\<dots> = nat w * nat h"
    by (simp add: card_cartesian_product)
  also from assms have "\<dots> = nat (w * h)"
    by (simp add: nat_mult_distrib)
  finally show ?thesis .
qed

lemma finite_visited_set: "finite (visited_set w h g)"
  by (rule finite_subset [OF _ finite_in_bounds [of w h]]) (auto simp add: visited_set_def)

lemma finite_unvisited_set: "finite (unvisited_set w h g)"
  by (rule finite_subset [OF _ finite_in_bounds [of w h]]) (auto simp add: unvisited_set_def)

lemma finite_edges: "finite (edges w h g)"
proof -
  have "edges w h g \<subseteq> {c. in_bounds w h c} \<times> {Right, Bottom}"
    by (auto simp add: edges_def broken_pair_def)
  then show ?thesis
    by (rule finite_subset) (simp add: finite_in_bounds)
qed

lemma visited_unvisited:
  "visited_set w h g \<union> unvisited_set w h g = {c. in_bounds w h c}"
  "visited_set w h g \<inter> unvisited_set w h g = {}"
  by (auto simp add: visited_set_def unvisited_set_def)

lemma card_visited_unvisited:
  "card (visited_set w h g) + card (unvisited_set w h g) = card {c. in_bounds w h c}"
  using card_Un_disjoint [OF finite_visited_set finite_unvisited_set visited_unvisited(2), of w h g]
  by (simp add: visited_unvisited(1))

lemma visited_set_mark:
  assumes "shape w h g" and "in_bounds w h c"
  shows "visited_set w h (mark g c) = insert c (visited_set w h g)"
  using assms by (auto simp add: visited_set_def visited_mark [where w = w and h = h])

lemma unvisited_set_mark:
  assumes "shape w h g" and "in_bounds w h c"
  shows "unvisited_set w h (mark g c) = unvisited_set w h g - {c}"
  using assms by (auto simp add: unvisited_set_def visited_mark [where w = w and h = h])

lemma broken_pair_mark:
  assumes "shape w h g" and "in_bounds w h c"
  shows "broken_pair w h (mark g c) a e = broken_pair w h g a e"
  using assms by (auto simp add: broken_pair_def has_wall_mark [where w = w and h = h])

lemma passages_mark:
  "shape w h g \<Longrightarrow> in_bounds w h c \<Longrightarrow> passages w h (mark g c) = passages w h g"
  by (simp add: passages_def broken_pair_mark)

lemma edges_mark:
  "shape w h g \<Longrightarrow> in_bounds w h c \<Longrightarrow> edges w h (mark g c) = edges w h g"
  by (simp add: edges_def broken_pair_mark)

lemma wall_symmetry_mark:
  assumes "shape w h g" and "in_bounds w h c" and "wall_symmetry w h g"
  shows "wall_symmetry w h (mark g c)"
  using assms by (simp add: wall_symmetry_def has_wall_mark [where w = w and h = h])

lemma fresh_except_mark:
  assumes "shape w h g" and "in_bounds w h c" and "fresh_except w h g {c}"
  shows "fresh_except w h (mark g c) {}"
  using assms
  by (auto simp add: fresh_except_def has_wall_mark [where w = w and h = h]
      visited_mark [where w = w and h = h])

lemma visited_set_broken:
  assumes "shape w h g" and "in_bounds w h c" and "in_bounds w h (move d c)"
  shows "visited_set w h (broken g c d) = visited_set w h g"
  using assms by (auto simp add: visited_set_def visited_broken [where w = w and h = h])

lemma unvisited_set_broken:
  assumes "shape w h g" and "in_bounds w h c" and "in_bounds w h (move d c)"
  shows "unvisited_set w h (broken g c d) = unvisited_set w h g"
  using assms by (auto simp add: unvisited_set_def visited_broken [where w = w and h = h])

lemma facing_eq:
  "(move e a = move d c \<and> opposite e = opposite d) \<longleftrightarrow> (a = c \<and> e = d)"
  "(move e a = c \<and> opposite e = d) \<longleftrightarrow> (a = move d c \<and> e = opposite d)"
proof -
  show "(move e a = move d c \<and> opposite e = opposite d) \<longleftrightarrow> (a = c \<and> e = d)"
    using move_inj [of d a c] by (auto simp add: opposite_inj)
  show "(move e a = c \<and> opposite e = d) \<longleftrightarrow> (a = move d c \<and> e = opposite d)"
    using move_eq_iff [of e a c] by (auto simp add: opposite_eq_iff opposite_opposite)
qed

lemma wall_symmetry_broken:
  assumes "shape w h g" and "in_bounds w h c" and "in_bounds w h (move d c)"
    and "wall_symmetry w h g"
  shows "wall_symmetry w h (broken g c d)"
  unfolding wall_symmetry_def
proof (intro allI impI)
  fix a e
  assume ab: "in_bounds w h a \<and> in_bounds w h (move e a)"
  with assms(4) have "has_wall g a e = has_wall g (move e a) (opposite e)"
    by (simp add: wall_symmetry_def)
  with ab assms(1-3) show "has_wall (broken g c d) a e
      = has_wall (broken g c d) (move e a) (opposite e)"
    by (auto simp add: has_wall_broken [where w = w and h = h] facing_eq(2) move_back
        opposite_opposite)
qed

lemma broken_pair_broken:
  assumes "shape w h g" and "in_bounds w h c" and "in_bounds w h (move d c)"
  shows "broken_pair w h (broken g c d) a e \<longleftrightarrow>
    broken_pair w h g a e \<or> (a = c \<and> e = d) \<or> (a = move d c \<and> e = opposite d)"
proof (cases "in_bounds w h a \<and> in_bounds w h (move e a)")
  case True
  with assms show ?thesis
    by (simp add: broken_pair_def has_wall_broken [where w = w and h = h] facing_eq(2) move_back
        opposite_opposite) blast
next
  case False
  with assms have "\<not> (a = c \<and> e = d)" and "\<not> (a = move d c \<and> e = opposite d)"
    by (auto simp add: move_back)
  with False show ?thesis
    by (auto simp add: broken_pair_def)
qed

section \<open>The traversal\<close>

lemma passages_broken:
  assumes "shape w h g" and "in_bounds w h c" and "in_bounds w h (move d c)"
  shows "passages w h g \<subseteq> passages w h (broken g c d)"
    and "(c, move d c) \<in> passages w h (broken g c d)"
proof -
  show "passages w h g \<subseteq> passages w h (broken g c d)"
    by (auto simp add: passages_def broken_pair_broken [OF assms])
  have "broken_pair w h (broken g c d) c d"
    by (simp add: broken_pair_broken [OF assms])
  then show "(c, move d c) \<in> passages w h (broken g c d)"
    by (auto simp add: passages_def)
qed

lemma edges_broken:
  assumes "shape w h g" and "in_bounds w h c" and "in_bounds w h (move d c)"
  shows "edges w h (broken g c d) =
    insert (if d = Right \<or> d = Bottom then (c, d) else (move d c, opposite d)) (edges w h g)"
proof (cases "d = Right \<or> d = Bottom")
  case True
  then have "\<not> (opposite d = Right \<or> opposite d = Bottom)"
    by (cases d) simp_all
  with True show ?thesis
    by (auto simp add: edges_def broken_pair_broken [OF assms])
next
  case False
  then have "opposite d = Right \<or> opposite d = Bottom"
    by (cases d) simp_all
  with False show ?thesis
    by (auto simp add: edges_def broken_pair_broken [OF assms])
qed

lemma card_edges_broken:
  assumes "shape w h g" and "in_bounds w h c" and "in_bounds w h (move d c)"
    and "has_wall g (move d c) (opposite d)"
  shows "card (edges w h (broken g c d)) = Suc (card (edges w h g))"
proof -
  from assms(4) have "\<not> broken_pair w h g c d" and "\<not> broken_pair w h g (move d c) (opposite d)"
    by (simp_all add: broken_pair_def)
  then have "(if d = Right \<or> d = Bottom then (c, d) else (move d c, opposite d)) \<notin> edges w h g"
    by (simp add: edges_def)
  then show ?thesis
    by (simp add: edges_broken [OF assms(1-3)] finite_edges del: insert_iff)
qed

lemma fresh_except_broken:
  assumes "shape w h g" and "in_bounds w h c" and "in_bounds w h (move d c)"
    and "fresh_except w h g {}" and "visited (the_cell g c)"
  shows "fresh_except w h (broken g c d) {move d c}"
  unfolding fresh_except_def
proof (intro allI impI)
  fix a e
  assume a: "in_bounds w h a \<and> \<not> visited (the_cell (broken g c d) a) \<and> a \<notin> {move d c}"
  then have "in_bounds w h a" and "\<not> visited (the_cell (broken g c d) a)"
    by simp_all
  with assms(1-3) have unv: "\<not> visited (the_cell g a)"
    by (simp add: visited_broken [where w = w and h = h])
  with assms(5) have "a \<noteq> c"
    by auto
  moreover from assms(4) a unv have "has_wall g a e"
    by (simp add: fresh_except_def)
  ultimately show "has_wall (broken g c d) a e"
    using a assms(1-3) by (simp add: has_wall_broken [where w = w and h = h])
qed

lemma commit_simps:
  "grid (commit s g) = g" "trace (commit s g) = g # trace s" "draws (commit s g) = draws s"
  by (simp_all add: commit_def)

lemma maze_inv_commit:
  "maze_inv w h s \<Longrightarrow> static w h g \<Longrightarrow> wall_symmetry w h g \<Longrightarrow> maze_inv w h (commit s g)"
  by (simp add: maze_inv_def commit_simps)

lemma maze_inv_draws: "maze_inv w h (s\<lparr>draws := k\<rparr>) = maze_inv w h s"
  by (simp add: maze_inv_def)

lemma reachable_refl: "reachable w h g a a"
  by (simp add: reachable_def)

lemma reachable_mono:
  "reachable w h g a b \<Longrightarrow> passages w h g \<subseteq> passages w h g' \<Longrightarrow> reachable w h g' a b"
  unfolding reachable_def using rtrancl_mono by blast

lemma reachable_step:
  "(a, b) \<in> passages w h g \<Longrightarrow> reachable w h g b c \<Longrightarrow> reachable w h g a c"
  unfolding reachable_def by (rule converse_rtrancl_into_rtrancl)

text \<open>A loop with no unvisited neighbour left has explored its cell.\<close>

lemma explored_done:
  assumes "maze_inv w h s" and "fresh_except w h (grid s) {}"
    and "c \<in> visited_set w h (grid s)"
    and "\<forall>d. in_bounds w h (move d c) \<longrightarrow> move d c \<in> visited_set w h (grid s)"
  shows "explored w h c s s"
  using assms by (simp add: explored_def)

lemma explored_enter:
  assumes mark: "visited_set w h (grid s1) = insert c (visited_set w h (grid s))"
    "passages w h (grid s1) = passages w h (grid s)"
    "edges w h (grid s1) = edges w h (grid s)"
    and new: "c \<notin> visited_set w h (grid s)"
    and rest: "explored w h c s1 s'"
  shows "explored w h c s s'"
proof -
  let ?V = "visited_set w h (grid s)" and ?V' = "visited_set w h (grid s')"
  from rest have inv: "maze_inv w h s'" "fresh_except w h (grid s') {}"
    and sub: "insert c ?V \<subseteq> ?V'"
    and pas: "passages w h (grid s) \<subseteq> passages w h (grid s')"
    and newly: "\<forall>a \<in> ?V' - insert c ?V. reachable w h (grid s') c a \<and>
        (\<forall>d. in_bounds w h (move d a) \<longrightarrow> move d a \<in> ?V')"
    and closed: "\<forall>d. in_bounds w h (move d c) \<longrightarrow> move d c \<in> ?V'"
    and count: "card (edges w h (grid s')) + card (insert c ?V)
        = card (edges w h (grid s)) + card ?V'"
    by (simp_all add: explored_def mark)
  from new have "card (insert c ?V) = Suc (card ?V)"
    by (simp add: finite_visited_set)
  with count new have count': "card (edges w h (grid s')) + card ?V + (if c \<in> ?V then 0 else 1)
      = card (edges w h (grid s)) + card ?V'"
    by simp
  have newly': "\<forall>a \<in> ?V' - ?V. reachable w h (grid s') c a \<and>
        (\<forall>d. in_bounds w h (move d a) \<longrightarrow> move d a \<in> ?V')"
  proof
    fix a
    assume "a \<in> ?V' - ?V"
    then show "reachable w h (grid s') c a \<and>
        (\<forall>d. in_bounds w h (move d a) \<longrightarrow> move d a \<in> ?V')"
      using newly closed by (cases "a = c") (simp_all add: reachable_refl)
  qed
  from sub have "c \<in> ?V'" and "?V \<subseteq> ?V'"
    by auto
  with inv pas newly' closed count' show ?thesis
    unfolding explored_def by blast
qed

lemma explored_loop:
  assumes brk: "visited_set w h (grid s2) = visited_set w h (grid s)"
    "passages w h (grid s) \<subseteq> passages w h (grid s2)"
    "(c, n) \<in> passages w h (grid s2)"
    "card (edges w h (grid s2)) = Suc (card (edges w h (grid s)))"
    and cn: "c \<in> visited_set w h (grid s)" "n \<notin> visited_set w h (grid s)"
    and sub: "explored w h n s2 s3"
    and rest: "explored w h c s3 s'"
  shows "explored w h c s s'"
proof -
  let ?V = "visited_set w h (grid s)" and ?V3 = "visited_set w h (grid s3)"
    and ?V' = "visited_set w h (grid s')"
  from sub cn have sub3: "?V \<subseteq> ?V3"
    and pas3: "passages w h (grid s2) \<subseteq> passages w h (grid s3)"
    and newly3: "\<forall>a \<in> ?V3 - ?V. reachable w h (grid s3) n a \<and>
        (\<forall>d. in_bounds w h (move d a) \<longrightarrow> move d a \<in> ?V3)"
    and count3: "card (edges w h (grid s3)) + card ?V + 1
        = Suc (card (edges w h (grid s))) + card ?V3"
    by (simp_all add: explored_def brk)
  from rest have inv: "maze_inv w h s'" "fresh_except w h (grid s') {}"
    and sub': "?V3 \<subseteq> ?V'"
    and pas': "passages w h (grid s3) \<subseteq> passages w h (grid s')"
    and newly': "\<forall>a \<in> ?V' - ?V3. reachable w h (grid s') c a \<and>
        (\<forall>d. in_bounds w h (move d a) \<longrightarrow> move d a \<in> ?V')"
    and closed: "\<forall>d. in_bounds w h (move d c) \<longrightarrow> move d c \<in> ?V'"
    by (simp_all add: explored_def)
  from sub3 cn have "c \<in> ?V3"
    by auto
  with rest have count': "card (edges w h (grid s')) + card ?V3
      = card (edges w h (grid s3)) + card ?V'"
    by (simp add: explored_def)
  from count3 count' cn have count: "card (edges w h (grid s')) + card ?V
      + (if c \<in> ?V then 0 else 1) = card (edges w h (grid s)) + card ?V'"
    by simp
  from brk(3) pas3 pas' have cn': "(c, n) \<in> passages w h (grid s')"
    by blast
  have newly: "\<forall>a \<in> ?V' - ?V. reachable w h (grid s') c a \<and>
        (\<forall>d. in_bounds w h (move d a) \<longrightarrow> move d a \<in> ?V')"
  proof
    fix a
    assume a: "a \<in> ?V' - ?V"
    show "reachable w h (grid s') c a \<and> (\<forall>d. in_bounds w h (move d a) \<longrightarrow> move d a \<in> ?V')"
    proof (cases "a \<in> ?V3")
      case True
      with a newly3 have r: "reachable w h (grid s3) n a"
        and cl: "\<forall>d. in_bounds w h (move d a) \<longrightarrow> move d a \<in> ?V3"
        by simp_all
      from r pas' have "reachable w h (grid s') n a"
        by (rule reachable_mono)
      with cn' have "reachable w h (grid s') c a"
        by (rule reachable_step)
      with cl sub' show ?thesis
        by blast
    next
      case False
      with a newly' show ?thesis
        by simp
    qed
  qed
  from brk(2) pas3 pas' have pas: "passages w h (grid s) \<subseteq> passages w h (grid s')"
    by blast
  from sub3 sub' cn have "?V \<subseteq> ?V'" and "c \<in> ?V'"
    by auto
  with inv pas newly closed count show ?thesis
    unfolding explored_def by blast
qed


lemma card_unvisited_less:
  assumes "visited_set w h g \<subseteq> visited_set w h g'" and "n \<in> visited_set w h g'"
    and "n \<notin> visited_set w h g"
  shows "card (unvisited_set w h g') < card (unvisited_set w h g)"
proof -
  from assms have "visited_set w h g \<subset> visited_set w h g'"
    by auto
  then have "card (visited_set w h g) < card (visited_set w h g')"
    by (simp add: psubset_card_mono finite_visited_set)
  with card_visited_unvisited [of w h g] card_visited_unvisited [of w h g'] show ?thesis
    by simp
qed

lemma generate_rec_explores:
  assumes rnd: "random_source rnd"
  shows "maze_inv w h s \<Longrightarrow> frame_ready w h stack fr s \<Longrightarrow>
    \<exists>s'. generate_rec rnd stack fr s = Some (Inr s') \<and> explored w h (frame_coord fr) s s'"
proof (induction "2 * card (unvisited_set w h (grid s)) + (case fr of Enter c \<Rightarrow> 0 | While c a \<Rightarrow> 1)"
    arbitrary: s fr stack rule: less_induct)
  case less
  let ?g = "grid s"
  from less.prems(1) have static: "static w h ?g" and sym: "wall_symmetry w h ?g"
    by (simp_all add: maze_inv_def)
  then have shape: "shape w h ?g"
    by (simp add: static_def)
  show ?case
  proof (cases fr)
    case (Enter c)
    with less.prems(2) have c: "in_bounds w h c" and new: "c \<notin> visited_set w h ?g"
      and fresh: "fresh_except w h ?g {c}" and room: "card (unvisited_set w h ?g) \<le> stack"
      by (simp_all add: frame_ready_def)
    let ?s1 = "commit s (mark ?g c)"
    let ?adj = "filter (\<lambda>n. \<not> visited (the_cell (mark ?g c) n)) (neighbours w h c)"
    from c new have cu: "c \<in> unvisited_set w h ?g"
      by (simp add: visited_set_def unvisited_set_def)
    then have pos: "0 < card (unvisited_set w h ?g)"
      using finite_unvisited_set [of w h ?g] by (auto simp add: card_gt_0_iff)
    have visit: "visit s c = Inr ?s1"
      using shape c by (rule visit_in)
    have static1: "static w h (mark ?g c)"
      using static c by (rule static_mark)
    then have adj: "adjacents_of (grid ?s1) c = Inr ?adj"
      using c by (simp add: commit_simps adjacents_of_in)
    have inv1: "maze_inv w h ?s1"
      using less.prems(1) static1 wall_symmetry_mark [OF shape c sym] by (rule maze_inv_commit)
    have u1: "unvisited_set w h (grid ?s1) = unvisited_set w h ?g - {c}"
      by (simp add: commit_simps unvisited_set_mark [OF shape c])
    have card1: "Suc (card (unvisited_set w h (grid ?s1))) = card (unvisited_set w h ?g)"
      unfolding u1 using finite_unvisited_set cu by (rule card_Suc_Diff1)
    have v1: "visited_set w h (grid ?s1) = insert c (visited_set w h ?g)"
      by (simp add: commit_simps visited_set_mark [OF shape c])
    have ready1: "frame_ready w h stack (While c ?adj) ?s1"
      using c v1 adj card1 room fresh_except_mark [OF shape c fresh]
      by (simp add: frame_ready_def commit_simps)
    from card1 Enter
    have "2 * card (unvisited_set w h (grid ?s1)) + (case While c ?adj of Enter c \<Rightarrow> 0 | While c a \<Rightarrow> 1)
        < 2 * card (unvisited_set w h ?g) + (case fr of Enter c \<Rightarrow> 0 | While c a \<Rightarrow> 1)"
      by simp
    from less.hyps [OF this inv1 ready1] obtain s'
      where run: "generate_rec rnd stack (While c ?adj) ?s1 = Some (Inr s')"
        and ex: "explored w h c ?s1 s'"
      by auto
    from pos room have "stack \<noteq> 0"
      by simp
    with visit adj run have "generate_rec rnd stack (Enter c) s = Some (Inr s')"
      by (subst generate_rec.simps) simp
    moreover have "explored w h c s s'"
      using v1 _ _ new ex
      by (rule explored_enter)
        (simp_all add: commit_simps passages_mark [OF shape c] edges_mark [OF shape c])
    ultimately show ?thesis
      using Enter by simp
  next
    case (While c adj)
    with less.prems(2) have c: "in_bounds w h c" and old: "c \<in> visited_set w h ?g"
      and fresh: "fresh_except w h ?g {}" and adj0: "adjacents_of ?g c = Inr adj"
      and room: "card (unvisited_set w h ?g) < stack"
      by (simp_all add: frame_ready_def)
    from adj0 static c have adj: "adj = filter (\<lambda>n. \<not> visited (the_cell ?g n)) (neighbours w h c)"
      by (simp add: adjacents_of_in)
    show ?thesis
    proof (cases "adj = []")
      case True
      then have "generate_rec rnd stack (While c adj) s = Some (Inr s)"
        by (subst generate_rec.simps) simp
      moreover have "\<forall>d. in_bounds w h (move d c) \<longrightarrow> move d c \<in> visited_set w h ?g"
      proof (intro allI impI)
        fix d
        assume d: "in_bounds w h (move d c)"
        then have "move d c \<in> set (neighbours w h c)"
          by (auto simp add: neighbours_set [OF c])
        with True adj have "visited (the_cell ?g (move d c))"
          by (auto simp add: filter_empty_conv)
        with d show "move d c \<in> visited_set w h ?g"
          by (simp add: visited_set_def)
      qed
      with less.prems(1) fresh old have "explored w h c s s"
        by (rule explored_done)
      ultimately show ?thesis
        using While by simp
    next
      case False
      let ?s0 = "s\<lparr>draws := Suc (draws s)\<rparr>"
      from choose_next_in [OF rnd False, of s] obtain n
        where n: "n \<in> set adj" and choose: "choose_next rnd s adj = Inr (n, ?s0)"
        by auto
      from n adj have nn: "n \<in> set (neighbours w h c)" and nu: "\<not> visited (the_cell ?g n)"
        by simp_all
      from nn obtain d where nb: "in_bounds w h n" and nd: "n = move d c"
        by (auto simp add: neighbours_set [OF c])
      from nb nd have db: "in_bounds w h (move d c)"
        by simp
      let ?g2 = "broken ?g c d"
      let ?s2 = "commit ?s0 ?g2"
      have brk: "break_toward ?s0 c n = Inr ?s2"
        using break_toward_in [of w h ?s0 c d] shape c db nd by simp
      have static2: "static w h ?g2"
        using static c db by (rule static_broken)
      have inv2: "maze_inv w h ?s2"
        using less.prems(1) static2 wall_symmetry_broken [OF shape c db sym]
        by (intro maze_inv_commit) (simp_all add: maze_inv_draws)
      from nu nb have new: "n \<notin> visited_set w h ?g"
        by (simp add: visited_set_def)
      from old have cv: "visited (the_cell ?g c)"
        by (simp add: visited_set_def)
      from fresh nb nu have "has_wall ?g n (opposite d)"
        by (simp add: fresh_except_def)
      then have card2: "card (edges w h ?g2) = Suc (card (edges w h ?g))"
        using card_edges_broken [OF shape c db] nd by simp
      have v2: "visited_set w h (grid ?s2) = visited_set w h ?g"
        by (simp add: commit_simps visited_set_broken [OF shape c db])
      have u2: "unvisited_set w h (grid ?s2) = unvisited_set w h ?g"
        by (simp add: commit_simps unvisited_set_broken [OF shape c db])
      have ready2: "frame_ready w h (stack - 1) (Enter n) ?s2"
        using nb new v2 u2 room fresh_except_broken [OF shape c db fresh cv] nd
        by (simp add: frame_ready_def commit_simps)
      from u2 While
      have "2 * card (unvisited_set w h (grid ?s2)) + (case Enter n of Enter c \<Rightarrow> 0 | While c a \<Rightarrow> 1)
          < 2 * card (unvisited_set w h ?g) + (case fr of Enter c \<Rightarrow> 0 | While c a \<Rightarrow> 1)"
        by simp
      from less.hyps [OF this inv2 ready2] obtain s3
        where run3: "generate_rec rnd (stack - 1) (Enter n) ?s2 = Some (Inr s3)"
          and ex3: "explored w h n ?s2 s3"
        by auto
      from ex3 have inv3: "maze_inv w h s3" and fresh3: "fresh_except w h (grid s3) {}"
        and n3: "n \<in> visited_set w h (grid s3)"
        and sub3: "visited_set w h ?g \<subseteq> visited_set w h (grid s3)"
        by (simp_all add: explored_def v2)
      from inv3 have static3: "static w h (grid s3)"
        by (simp add: maze_inv_def)
      let ?adj3 = "filter (\<lambda>n. \<not> visited (the_cell (grid s3) n)) (neighbours w h c)"
      have adj3: "adjacents_of (grid s3) c = Inr ?adj3"
        using static3 c by (rule adjacents_of_in)
      have less3: "card (unvisited_set w h (grid s3)) < card (unvisited_set w h ?g)"
        using sub3 n3 new by (rule card_unvisited_less)
      have ready3: "frame_ready w h stack (While c ?adj3) s3"
        using c old sub3 fresh3 adj3 less3 room by (auto simp add: frame_ready_def)
      from less3 While
      have "2 * card (unvisited_set w h (grid s3)) + (case While c ?adj3 of Enter c \<Rightarrow> 0 | While c a \<Rightarrow> 1)
          < 2 * card (unvisited_set w h ?g) + (case fr of Enter c \<Rightarrow> 0 | While c a \<Rightarrow> 1)"
        by simp
      from less.hyps [OF this inv3 ready3] obtain s'
        where run: "generate_rec rnd stack (While c ?adj3) s3 = Some (Inr s')"
          and ex: "explored w h c s3 s'"
        by auto
      from False choose brk run3 adj3 run
      have "generate_rec rnd stack (While c adj) s = Some (Inr s')"
        by (subst generate_rec.simps) simp
      moreover have "explored w h c s s'"
        using v2 _ _ _ old new ex3 ex
        by (rule explored_loop)
          (simp_all add: commit_simps passages_broken [OF shape c db] card2 nd)
      ultimately show ?thesis
        using While by simp
    qed
  qed
qed

section \<open>The reset grid, connectivity and the count of wall pairs\<close>

lemma static_reset_grid: "static w h (reset_grid w h)"
  by (simp add: static_def shape_reset_grid the_cell_reset_grid neighbours_def reset_cell_def
      MazeCell_new_def)

lemma walls_reset_cell: "walls (reset_cell w h px py) = 15"
  by (simp add: reset_cell_def MazeCell_new_def wall_values)

lemma has_wall_reset_grid: "in_bounds w h c \<Longrightarrow> has_wall (reset_grid w h) c d"
  by (cases d) (simp_all add: has_wall_def the_cell_reset_grid walls_reset_cell wall_values)

lemma visited_reset_grid: "in_bounds w h c \<Longrightarrow> \<not> visited (the_cell (reset_grid w h) c)"
  by (simp add: the_cell_reset_grid reset_cell_def MazeCell_new_def)

lemma wall_symmetry_reset_grid: "wall_symmetry w h (reset_grid w h)"
  by (simp add: wall_symmetry_def has_wall_reset_grid)

lemma fresh_except_reset_grid: "fresh_except w h (reset_grid w h) X"
  by (simp add: fresh_except_def has_wall_reset_grid)

lemma visited_set_reset_grid: "visited_set w h (reset_grid w h) = {}"
  by (auto simp add: visited_set_def visited_reset_grid)

lemma unvisited_set_reset_grid: "unvisited_set w h (reset_grid w h) = {c. in_bounds w h c}"
  by (auto simp add: unvisited_set_def visited_reset_grid)

lemma edges_reset_grid: "edges w h (reset_grid w h) = {}"
  by (auto simp add: edges_def broken_pair_def has_wall_reset_grid)

text \<open>The grid is connected: a set of cells closed under neighbours holds every cell or none.\<close>

lemma closed_set_all:
  assumes start: "in_bounds w h a" "a \<in> V"
    and closed: "\<forall>b \<in> V. \<forall>d. in_bounds w h (move d b) \<longrightarrow> move d b \<in> V"
  shows "in_bounds w h c \<Longrightarrow> c \<in> V"
proof (induction "nat \<bar>coord_x c - coord_x a\<bar> + nat \<bar>coord_y c - coord_y a\<bar>" arbitrary: c
    rule: less_induct)
  case less
  show ?case
  proof (cases "coord_x c = coord_x a \<and> coord_y c = coord_y a")
    case True
    then have "c = a"
      by (simp add: coord_eq_iff)
    with start show ?thesis
      by simp
  next
    case False
    define d where "d = (if coord_x c < coord_x a then Right else if coord_x a < coord_x c then Left
      else if coord_y c < coord_y a then Bottom else Top)"
    let ?b = "move d c"
    from False start(1) less.prems have b: "in_bounds w h ?b"
      by (auto simp add: d_def in_bounds_def)
    from False have "nat \<bar>coord_x ?b - coord_x a\<bar> + nat \<bar>coord_y ?b - coord_y a\<bar>
        < nat \<bar>coord_x c - coord_x a\<bar> + nat \<bar>coord_y c - coord_y a\<bar>"
      by (auto simp add: d_def)
    from less.hyps [OF this b] have "?b \<in> V" .
    moreover from less.prems have "in_bounds w h (move (opposite d) ?b)"
      by (simp add: move_back)
    ultimately have "move (opposite d) ?b \<in> V"
      using closed by blast
    then show ?thesis
      by (simp add: move_back)
  qed
qed

lemma set_all_coords: "set (all_coords w h) = {c. in_bounds w h c}"
proof (intro set_eqI iffI)
  fix c
  assume "c \<in> set (all_coords w h)"
  then show "c \<in> {c. in_bounds w h c}"
    by (auto simp add: all_coords_def in_bounds_def)
next
  fix c
  assume "c \<in> {c. in_bounds w h c}"
  then have "(nat (coord_y c), nat (coord_x c)) \<in> set (List.product [0..<nat h] [0..<nat w])"
    and "c = (\<lambda>(py, px). \<lparr>coord_x = int px, coord_y = int py\<rparr>) (nat (coord_y c), nat (coord_x c))"
    by (auto simp add: in_bounds_def)
  then show "c \<in> set (all_coords w h)"
    unfolding all_coords_def set_map by (rule image_eqI [rotated])
qed

lemma distinct_all_coords: "distinct (all_coords w h)"
  unfolding all_coords_def
  by (auto simp add: distinct_map distinct_product inj_on_def)

lemma broken_wall_pairs_edges: "broken_wall_pairs w h g = card (edges w h g)"
proof -
  let ?xs = "List.product (all_coords w h) [Right, Bottom]"
  have "distinct ?xs"
    by (simp add: distinct_product distinct_all_coords)
  then have "broken_wall_pairs w h g = card ({x. (\<lambda>(c, d). broken_pair w h g c d) x} \<inter> set ?xs)"
    unfolding broken_wall_pairs_def by (rule distinct_length_filter)
  also have "{x. (\<lambda>(c, d). broken_pair w h g c d) x} \<inter> set ?xs = edges w h g"
    by (auto simp add: edges_def set_all_coords broken_pair_def)
  finally show ?thesis .
qed

section \<open>Writes only remove structure\<close>

lemma cell_shrinks_refl: "cell_shrinks c c"
  by (simp add: cell_shrinks_def)

lemma cell_shrinks_trans:
  assumes "cell_shrinks a b" and "cell_shrinks b c"
  shows "cell_shrinks a c"
proof -
  from assms have "walls c AND walls b = walls c" and "walls b AND walls a = walls b"
    by (simp_all add: cell_shrinks_def)
  then have "walls c AND walls a = walls c"
    by (metis and.assoc)
  with assms show ?thesis
    by (auto simp add: cell_shrinks_def)
qed

lemma grid_shrinks_refl: "grid_shrinks g g"
  unfolding grid_shrinks_def by (intro list_all2_refl cell_shrinks_refl)

lemma row_shrinks_trans:
  assumes "list_all2 cell_shrinks x y" and "list_all2 cell_shrinks y z"
  shows "list_all2 cell_shrinks x z"
  using cell_shrinks_trans assms by (rule list_all2_trans)

lemma grid_shrinks_trans:
  assumes "grid_shrinks a b" and "grid_shrinks b c"
  shows "grid_shrinks a c"
  using row_shrinks_trans assms unfolding grid_shrinks_def by (rule list_all2_trans)

lemma cell_at_Some:
  assumes "cell_at g c = Inr (Some cur)"
  shows "nat (coord_y c) < length g" and "nat (coord_x c) < length (g ! nat (coord_y c))"
    and "cur = g ! nat (coord_y c) ! nat (coord_x c)"
  using assms
  by (auto simp add: cell_at_def nth_js_def nat_less_iff split: option.splits if_splits)

lemma grid_shrinks_put_cell:
  assumes "grid_shrinks g g1" and "cell_at g c = Inr (Some cur)" and "cell_shrinks cur v"
  shows "grid_shrinks g (put_cell g1 c v)"
proof -
  let ?i = "nat (coord_y c)" and ?j = "nat (coord_x c)"
  note at = cell_at_Some [OF assms(2)]
  from assms(1) at(1) have "list_all2 cell_shrinks (g ! ?i) (g1 ! ?i)"
    unfolding grid_shrinks_def by (rule list_all2_nthD)
  moreover from assms(3) at(3) have "cell_shrinks (g ! ?i ! ?j) v"
    by simp
  ultimately have "list_all2 cell_shrinks ((g ! ?i)[?j := g ! ?i ! ?j]) ((g1 ! ?i)[?j := v])"
    by (rule list_all2_update_cong)
  then have "list_all2 cell_shrinks (g ! ?i) ((g1 ! ?i)[?j := v])"
    by simp
  with assms(1)
  have "list_all2 (list_all2 cell_shrinks) (g[?i := g ! ?i]) (g1[?i := (g1 ! ?i)[?j := v]])"
    unfolding grid_shrinks_def by (rule list_all2_update_cong)
  then show ?thesis
    by (simp add: grid_shrinks_def put_cell_def)
qed

lemma advances_refl: "advances s s"
  by (simp add: advances_def)

lemma advances_trans: "advances a b \<Longrightarrow> advances b c \<Longrightarrow> advances a c"
  by (auto simp add: advances_def)

lemma advances_draws: "advances s (s\<lparr>draws := k\<rparr>)"
  by (simp add: advances_def ordered_trace_def)

lemma advances_commit:
  assumes "grid_shrinks (grid s) g"
  shows "advances s (commit s g)"
  unfolding advances_def
proof (intro conjI impI)
  show "\<exists>new. trace (commit s g) = new @ trace s"
    by (simp add: commit_simps)
  assume ord: "ordered_trace s"
  then obtain rest where tr: "trace s = grid s # rest"
    by (cases "trace s") (auto simp add: ordered_trace_def)
  have "grid_shrinks old g" if "old \<in> set (trace s)" for old
  proof (cases "old = grid s")
    case True
    with assms show ?thesis
      by simp
  next
    case False
    with that tr have "old \<in> set rest"
      by simp
    with ord tr have "grid_shrinks old (grid s)"
      by (simp add: ordered_trace_def)
    then show ?thesis
      using assms by (rule grid_shrinks_trans)
  qed
  with ord show "ordered_trace (commit s g)"
    by (simp add: ordered_trace_def commit_simps)
qed

lemma cell_shrinks_visited: "cell_shrinks c (c\<lparr>visited := True\<rparr>)"
  by (simp add: cell_shrinks_def)

lemma cell_shrinks_walls: "cell_shrinks c (c\<lparr>walls := walls c AND NOT m\<rparr>)"
proof -
  have "(walls c AND NOT m) AND walls c = walls c AND NOT m"
    by (rule bit_word_eqI) (auto simp add: bit_and_iff)
  then show ?thesis
    by (simp add: cell_shrinks_def)
qed

lemma visit_advances: "visit s c = Inr s' \<Longrightarrow> advances s s'"
  by (auto simp add: visit_def split: sum.splits option.splits
      intro!: advances_commit grid_shrinks_put_cell grid_shrinks_refl cell_shrinks_visited)

lemma break_at_advances:
  assumes "break_at s c n wall = Inr s'"
  shows "advances s s'"
proof -
  from assms obtain current nextNode
    where cur: "cell_at (grid s) c = Inr (Some current)"
      and nxt: "cell_at (grid s) n = Inr (Some nextNode)"
      and s': "s' = commit s (put_cell (put_cell (grid s) c (fst (breakCellWalls current nextNode wall)))
          n (snd (breakCellWalls current nextNode wall)))"
    by (auto simp add: break_at_def split: sum.splits option.splits prod.splits)
  have "cell_shrinks current (fst (breakCellWalls current nextNode wall))"
    and "cell_shrinks nextNode (snd (breakCellWalls current nextNode wall))"
    by (simp_all add: breakCellWalls_def Let_def cell_shrinks_walls)
  with cur nxt show ?thesis
    unfolding s'
    by (intro advances_commit grid_shrinks_put_cell [where c = n]
        grid_shrinks_put_cell [where c = c] grid_shrinks_refl)
qed

lemma break_toward_advances:
  assumes "break_toward s c n = Inr s'"
  shows "advances s s'"
proof -
  have one: "(if p then break_at t c n wa else if q then break_at t c n wb else Inr t) = Inr t'
      \<Longrightarrow> advances t t'" for p q t t' wa wb
    by (auto split: if_splits intro: break_at_advances advances_refl)
  from assms obtain s1
    where "(if coord_x n > coord_x c then break_at s c n WALL_RIGHT
            else if coord_x n < coord_x c then break_at s c n WALL_LEFT else Inr s) = Inr s1"
      and "(if coord_y n > coord_y c then break_at s1 c n WALL_BOTTOM
            else if coord_y n < coord_y c then break_at s1 c n WALL_TOP else Inr s1) = Inr s'"
    unfolding break_toward_def by (auto split: sum.splits)
  then have "advances s s1" and "advances s1 s'"
    by (auto dest: one)
  then show ?thesis
    by (rule advances_trans)
qed

lemma choose_next_advances: "choose_next rnd s adjacents = Inr (n, s') \<Longrightarrow> advances s s'"
  by (auto simp add: choose_next_def advances_draws split: option.splits)

section \<open>Every run only removes structure\<close>

lemma generate_rec_advances:
  assumes "generate_rec rnd stack fr s = Some (Inr s')"
  shows "advances s s'"
proof -
  have "\<forall>s'. r = Inr s' \<longrightarrow> advances s s'" if "generate_rec rnd stack fr s = Some r" for r
    using that
  proof (rule generate_rec.raw_induct
      [rotated, where P = "\<lambda>rnd stack fr s r. \<forall>s'. r = Inr s' \<longrightarrow> advances s s'"])
    fix g :: "(nat \<Rightarrow> real) \<Rightarrow> nat \<Rightarrow> frame \<Rightarrow> run_state \<Rightarrow> (js_error + run_state) option"
    fix rnd stack fr s r
    assume IH: "\<And>rnd stack fr s y. g rnd stack fr s = Some y
      \<Longrightarrow> \<forall>s'. y = Inr s' \<longrightarrow> advances s s'"
    assume eq: "(case fr of
        Enter coord \<Rightarrow>
          (if stack = 0 then Some (Inl RangeError)
           else (case visit s coord of
                   Inl e \<Rightarrow> Some (Inl e)
                 | Inr s1 \<Rightarrow>
                     (case adjacents_of (grid s1) coord of
                        Inl e \<Rightarrow> Some (Inl e)
                      | Inr adjacents \<Rightarrow> g rnd stack (While coord adjacents) s1)))
      | While coord adjacents \<Rightarrow>
          (if \<not> length adjacents > 0 then Some (Inr s)
           else (case choose_next rnd s adjacents of
                   Inl e \<Rightarrow> Some (Inl e)
                 | Inr (next, s1) \<Rightarrow>
                     (case break_toward s1 coord next of
                        Inl e \<Rightarrow> Some (Inl e)
                      | Inr s2 \<Rightarrow>
                          Option.bind (g rnd (stack - 1) (Enter next) s2)
                            (\<lambda>r. case r of
                               Inl e \<Rightarrow> Some (Inl e)
                             | Inr s3 \<Rightarrow>
                                 (case adjacents_of (grid s3) coord of
                                    Inl e \<Rightarrow> Some (Inl e)
                                  | Inr adjacents' \<Rightarrow>
                                      g rnd stack (While coord adjacents') s3)))))) = Some r"
    show "\<forall>s'. r = Inr s' \<longrightarrow> advances s s'"
    proof (intro allI impI)
      fix s'
      assume r: "r = Inr s'"
      show "advances s s'"
      proof (cases fr)
        case (Enter c)
        with eq r obtain s1 adj where "visit s c = Inr s1"
          and "g rnd stack (While c adj) s1 = Some (Inr s')"
          by (auto split: if_splits sum.splits)
        with IH have "advances s s1" and "advances s1 s'"
          by (auto dest: visit_advances)
        then show ?thesis
          by (rule advances_trans)
      next
        case (While c adj)
        show ?thesis
        proof (cases "adj = []")
          case True
          with eq r While show ?thesis
            by (simp add: advances_refl)
        next
          case False
          note eq' = eq [unfolded While r, simplified]
          show ?thesis
          proof (cases "choose_next rnd s adj")
            case (Inl e)
            with eq' False show ?thesis
              by simp
          next
            case (Inr p)
            obtain n s1 where p: "p = (n, s1)"
              by (cases p)
            with Inr have "advances s s1"
              by (auto dest: choose_next_advances)
            show ?thesis
            proof (cases "break_toward s1 c n")
              case (Inl e)
              with eq' False Inr p show ?thesis
                by simp
            next
              case brk: (Inr s2)
              then have "advances s1 s2"
                by (rule break_toward_advances)
              show ?thesis
              proof (cases "g rnd (stack - 1) (Enter n) s2")
                case None
                with eq' False Inr p brk show ?thesis
                  by simp
              next
                case (Some y)
                show ?thesis
                proof (cases y)
                  case (Inl e)
                  with eq' False Inr p brk Some show ?thesis
                    by simp
                next
                  case call: (Inr s3)
                  with Some IH have "advances s2 s3"
                    by blast
                  show ?thesis
                  proof (cases "adjacents_of (grid s3) c")
                    case (Inl e)
                    with eq' False \<open>choose_next rnd s adj = Inr p\<close> p brk Some call show ?thesis
                      by simp
                  next
                    case adj': (Inr adj')
                    with eq' False \<open>choose_next rnd s adj = Inr p\<close> p brk Some call
                    have "g rnd stack (While c adj') s3 = Some (Inr s')"
                      by simp
                    with IH have "advances s3 s'"
                      by blast
                    with \<open>advances s s1\<close> \<open>advances s1 s2\<close> \<open>advances s2 s3\<close> show ?thesis
                      by (blast intro: advances_trans)
                  qed
                qed
              qed
            qed
          qed
        qed
      qed
    qed
  qed
  with assms show ?thesis
    by simp
qed

lemma generate_Inr:
  assumes "generate rnd stack this k coord = Some (Inr (this', k', tr))"
  shows "\<exists>g s'. cells this = Some g \<and>
    generate_rec rnd stack (Enter coord) \<lparr>grid = g, draws = k, trace = [g]\<rparr> = Some (Inr s') \<and>
    this' = this\<lparr>cells := Some (grid s')\<rparr> \<and> k' = draws s' \<and> tr = rev (trace s')"
proof -
  from assms obtain g where g: "cells this = Some g" and "stack \<noteq> 0"
    by (auto simp add: generate_def split: if_splits option.splits)
  with assms obtain r
    where run: "generate_rec rnd stack (Enter coord) \<lparr>grid = g, draws = k, trace = [g]\<rparr> = Some r"
      and r: "map_sum id (\<lambda>s. (this\<lparr>cells := Some (grid s)\<rparr>, draws s, rev (trace s))) r
        = Inr (this', k', tr)"
    by (auto simp add: generate_def)
  from r obtain s' where "r = Inr s'"
    by (cases r) simp_all
  with g run r show ?thesis
    by auto
qed

lemma generate_reset_Inr:
  assumes "generate_rec rnd stack (Enter coord)
      \<lparr>grid = reset_grid (width this) (height this), draws = k,
       trace = [reset_grid (width this) (height this)]\<rparr> = Some (Inr s')"
    and "stack \<noteq> 0"
  shows "generate rnd stack (reset this) k coord
    = Some (Inr ((reset this)\<lparr>cells := Some (grid s')\<rparr>, draws s', rev (trace s')))"
  using assms by (simp add: generate_def reset_def)

lemma ordered_trace_start: "ordered_trace \<lparr>grid = g, draws = k, trace = [g]\<rparr>"
  by (simp add: ordered_trace_def)

lemma breakCellWalls_shrinks:
  "cell_shrinks cellA (fst (breakCellWalls cellA cellB wall))"
  "cell_shrinks cellB (snd (breakCellWalls cellA cellB wall))"
  by (simp_all add: breakCellWalls_def Let_def cell_shrinks_walls)

lemma generate_trace:
  assumes "generate rnd stack this k coord = Some (Inr (this', k', tr))"
  shows "tr \<noteq> [] \<and> cells this = Some (hd tr) \<and> cells this' = Some (last tr) \<and>
    sorted_wrt grid_shrinks tr \<and> width this' = width this \<and> height this' = height this"
proof -
  from generate_Inr [OF assms] obtain g s' where g: "cells this = Some g"
    and run: "generate_rec rnd stack (Enter coord) \<lparr>grid = g, draws = k, trace = [g]\<rparr>
      = Some (Inr s')"
    and res: "this' = this\<lparr>cells := Some (grid s')\<rparr>" "tr = rev (trace s')"
    by blast
  from generate_rec_advances [OF run] obtain new where new: "trace s' = new @ [g]"
    and ord: "ordered_trace s'"
    by (auto simp add: advances_def ordered_trace_start)
  from ord have "sorted_wrt grid_shrinks (rev (trace s'))"
    by (simp add: ordered_trace_def sorted_wrt_rev)
  moreover from ord have "last (rev (trace s')) = grid s'"
    by (simp add: ordered_trace_def last_rev)
  moreover from new have "hd (rev (trace s')) = g" and "rev (trace s') \<noteq> []"
    by simp_all
  ultimately show ?thesis
    using g res by simp
qed

section \<open>The generated maze\<close>

lemma generate_reset_explores:
  assumes "1 \<le> width this" and "1 \<le> height this"
    and "in_bounds (width this) (height this) start"
    and "random_source rnd" and "nat (width this * height this) \<le> stack"
  shows "\<exists>s'. generate rnd stack (reset this) k start
        = Some (Inr ((reset this)\<lparr>cells := Some (grid s')\<rparr>, draws s', rev (trace s'))) \<and>
      explored (width this) (height this) start
        \<lparr>grid = reset_grid (width this) (height this), draws = k,
         trace = [reset_grid (width this) (height this)]\<rparr> s'"
proof -
  let ?w = "width this" and ?h = "height this"
  let ?g = "reset_grid ?w ?h"
  let ?s = "\<lparr>grid = ?g, draws = k, trace = [?g]\<rparr>"
  have inv: "maze_inv ?w ?h ?s"
    by (simp add: maze_inv_def static_reset_grid wall_symmetry_reset_grid)
  from assms(1,2) have "card (unvisited_set ?w ?h ?g) = nat (?w * ?h)"
    by (simp add: unvisited_set_reset_grid card_in_bounds)
  with assms(3,5) have ready: "frame_ready ?w ?h stack (Enter start) ?s"
    by (simp add: frame_ready_def visited_set_reset_grid fresh_except_reset_grid)
  from generate_rec_explores [OF assms(4) inv ready] obtain s'
    where run: "generate_rec rnd stack (Enter start) ?s = Some (Inr s')"
      and ex: "explored ?w ?h start ?s s'"
    by auto
  from assms(1,2) have "0 < ?w * ?h"
    by (simp add: zero_less_mult_iff)
  with assms(5) have "stack \<noteq> 0"
    by auto
  with run have "generate rnd stack (reset this) k start
      = Some (Inr ((reset this)\<lparr>cells := Some (grid s')\<rparr>, draws s', rev (trace s')))"
    by (rule generate_reset_Inr)
  with ex show ?thesis
    by blast
qed

lemma explored_from_reset:
  assumes "1 \<le> w" and "1 \<le> h" and "in_bounds w h start"
    and "explored w h start \<lparr>grid = reset_grid w h, draws = k, trace = [reset_grid w h]\<rparr> s'"
  shows "\<forall>c. in_bounds w h c \<longrightarrow> reachable w h (grid s') start c"
    and "int (broken_wall_pairs w h (grid s')) = w * h - 1"
    and "\<forall>g \<in> set (trace s'). wall_symmetry w h g"
proof -
  let ?V = "visited_set w h (grid s')"
  from assms(4) have start: "start \<in> ?V"
    and newly: "\<forall>a \<in> ?V. reachable w h (grid s') start a \<and>
        (\<forall>d. in_bounds w h (move d a) \<longrightarrow> move d a \<in> ?V)"
    and count: "card (edges w h (grid s')) + 1 = card ?V"
    and inv: "maze_inv w h s'"
    by (simp_all add: explored_def visited_set_reset_grid edges_reset_grid)
  from newly have closed: "\<forall>b \<in> ?V. \<forall>d. in_bounds w h (move d b) \<longrightarrow> move d b \<in> ?V"
    by blast
  have all: "c \<in> ?V" if "in_bounds w h c" for c
    using assms(3) start closed that by (rule closed_set_all)
  with newly show "\<forall>c. in_bounds w h c \<longrightarrow> reachable w h (grid s') start c"
    by blast
  from all have "?V = {c. in_bounds w h c}"
    by (auto simp add: visited_set_def)
  with assms(1,2) have "card ?V = nat (w * h)"
    by (simp add: card_in_bounds)
  with count have "int (card (edges w h (grid s')) + 1) = int (nat (w * h))"
    by (simp only:)
  moreover from assms(1,2) have "0 \<le> w * h"
    by simp
  ultimately have "int (card (edges w h (grid s'))) + 1 = w * h"
    by (simp only: of_nat_add of_nat_1 int_nat_eq if_True)
  then show "int (broken_wall_pairs w h (grid s')) = w * h - 1"
    by (simp add: broken_wall_pairs_edges)
  from inv show "\<forall>g \<in> set (trace s'). wall_symmetry w h g"
    by (simp add: maze_inv_def)
qed

text \<open>
  Claim C1. On a grid of width and height at least 1 that has been reset,
  \<open>generate\<close> from a start cell inside the grid, with any random source and
  room on the stack for \<open>width * height\<close> nested calls, returns a maze in
  which every cell is reachable from the start through broken wall pairs and
  in which exactly \<open>width * height - 1\<close> wall pairs are broken.
\<close>

theorem generate_spanning_tree:
  assumes "1 \<le> width this" and "1 \<le> height this"
    and "in_bounds (width this) (height this) start"
    and "random_source rnd" and "nat (width this * height this) \<le> stack"
  shows "\<exists>this' k' tr g'.
      generate rnd stack (reset this) k start = Some (Inr (this', k', tr)) \<and>
      cells this' = Some g' \<and>
      (\<forall>c. in_bounds (width this) (height this) c
         \<longrightarrow> reachable (width this) (height this) g' start c) \<and>
      int (broken_wall_pairs (width this) (height this) g') = width this * height this - 1"
proof -
  from generate_reset_explores [OF assms, of k] obtain s'
    where run: "generate rnd stack (reset this) k start
        = Some (Inr ((reset this)\<lparr>cells := Some (grid s')\<rparr>, draws s', rev (trace s')))"
      and ex: "explored (width this) (height this) start
        \<lparr>grid = reset_grid (width this) (height this), draws = k,
         trace = [reset_grid (width this) (height this)]\<rparr> s'"
    by blast
  from explored_from_reset(1,2) [OF assms(1-3) ex] run show ?thesis
    by simp
qed

text \<open>
  Claim C2. In every grid of the history of such a run, from the reset grid
  through every write (a write being one marking of a cell or one call of
  \<open>breakCellWalls\<close>) to the final grid, the two facing wall bits of any two
  orthogonally adjacent cells are both set or both cleared.
\<close>

theorem generate_wall_symmetry:
  assumes "1 \<le> width this" and "1 \<le> height this"
    and "in_bounds (width this) (height this) start"
    and "random_source rnd" and "nat (width this * height this) \<le> stack"
  shows "\<exists>this' k' tr.
      generate rnd stack (reset this) k start = Some (Inr (this', k', tr)) \<and>
      tr \<noteq> [] \<and> cells (reset this) = Some (hd tr) \<and> cells this' = Some (last tr) \<and>
      (\<forall>g \<in> set tr. wall_symmetry (width this) (height this) g)"
proof -
  from generate_reset_explores [OF assms, of k] obtain s'
    where run: "generate rnd stack (reset this) k start
        = Some (Inr ((reset this)\<lparr>cells := Some (grid s')\<rparr>, draws s', rev (trace s')))"
      and ex: "explored (width this) (height this) start
        \<lparr>grid = reset_grid (width this) (height this), draws = k,
         trace = [reset_grid (width this) (height this)]\<rparr> s'"
    by blast
  from generate_trace [OF run] explored_from_reset(3) [OF assms(1-3) ex] run show ?thesis
    by simp
qed

text \<open>
  Claim C9. On a reset grid of width and height at least 1, \<open>generate\<close> from
  a start cell inside the grid returns, for any random source, and it returns
  normally whenever the stack has room for \<open>width * height\<close> nested calls of
  \<open>generate\<close>: the recursion is never deeper than that.
\<close>

theorem generate_terminates:
  assumes "1 \<le> width this" and "1 \<le> height this"
    and "in_bounds (width this) (height this) start"
    and "random_source rnd" and "nat (width this * height this) \<le> stack"
  shows "\<exists>this' k' tr. generate rnd stack (reset this) k start = Some (Inr (this', k', tr))"
  using generate_reset_explores [OF assms, of k] by blast

text \<open>
  Claim C10. Whenever \<open>generate\<close> returns, on any grid at all, the history of
  its writes is ordered: from each grid to every later one, each cell keeps
  its coordinates and its neighbour list, its wall mask only loses bits and
  its visited flag is never taken back; the grid at entry is the first of the
  history and the final grid the last, and the dimensions of the maze are as
  before. A call of \<open>breakCellWalls\<close> with any wall argument moves both of
  its cells in that order.
\<close>

theorem generate_only_removes:
  assumes "generate rnd stack this k coord = Some (Inr (this', k', tr))"
  shows "tr \<noteq> [] \<and> cells this = Some (hd tr) \<and> cells this' = Some (last tr) \<and>
    sorted_wrt grid_shrinks tr \<and> width this' = width this \<and> height this' = height this \<and>
    (\<forall>cellA cellB wall.
       cell_shrinks cellA (fst (breakCellWalls cellA cellB wall)) \<and>
       cell_shrinks cellB (snd (breakCellWalls cellA cellB wall)))"
  using generate_trace [OF assms] by (simp add: breakCellWalls_shrinks)

section \<open>One run, step by step\<close>

lemma enter_step:
  assumes "static w h (grid s)" and "in_bounds w h c" and "stack \<noteq> 0"
  shows "generate_rec rnd stack (Enter c) s =
    generate_rec rnd stack
      (While c (filter (\<lambda>n. \<not> visited (the_cell (mark (grid s) c) n)) (neighbours w h c)))
      (commit s (mark (grid s) c))"
proof -
  from assms(1) have shape: "shape w h (grid s)"
    by (simp add: static_def)
  have "visit s c = Inr (commit s (mark (grid s) c))"
    using shape assms(2) by (rule visit_in)
  moreover have "adjacents_of (mark (grid s) c) c =
      Inr (filter (\<lambda>n. \<not> visited (the_cell (mark (grid s) c) n)) (neighbours w h c))"
    using static_mark [OF assms(1,2)] assms(2) by (rule adjacents_of_in)
  ultimately show ?thesis
    using assms(3) by (subst generate_rec.simps) (simp add: commit_simps)
qed

lemma while_done: "generate_rec rnd stack (While c []) s = Some (Inr s)"
  by (subst generate_rec.simps) simp

lemma choose_first:
  assumes "first_index rnd" and "length rest < 4"
  shows "choose_next rnd s (n # rest) = Inr (n, s\<lparr>draws := Suc (draws s)\<rparr>)"
proof -
  from assms have "random_index (rnd (draws s)) (Suc (length rest)) = 0"
    by (simp add: first_index_def)
  then show ?thesis
    by (simp add: choose_next_def nth_js_def)
qed

lemma while_step:
  assumes "first_index rnd" and "static w h (grid s)" and "in_bounds w h c"
    and "in_bounds w h (move d c)"
    and sub: "generate_rec rnd (stack - 1) (Enter (move d c))
        (commit (s\<lparr>draws := Suc (draws s)\<rparr>) (broken (grid s) c d)) = Some (Inr s3)"
    and "static w h (grid s3)" and "length rest < 4"
  shows "generate_rec rnd stack (While c (move d c # rest)) s =
    generate_rec rnd stack
      (While c (filter (\<lambda>n. \<not> visited (the_cell (grid s3) n)) (neighbours w h c))) s3"
proof -
  from assms(2) have shape: "shape w h (grid s)"
    by (simp add: static_def)
  have "break_toward (s\<lparr>draws := Suc (draws s)\<rparr>) c (move d c)
      = Inr (commit (s\<lparr>draws := Suc (draws s)\<rparr>) (broken (grid s) c d))"
    using break_toward_in [of w h "s\<lparr>draws := Suc (draws s)\<rparr>" c d] shape assms(3,4) by simp
  moreover have "adjacents_of (grid s3) c =
      Inr (filter (\<lambda>n. \<not> visited (the_cell (grid s3) n)) (neighbours w h c))"
    using assms(6,3) by (rule adjacents_of_in)
  ultimately show ?thesis
    using choose_first [OF assms(1,7), of s "move d c"] sub
    by (subst generate_rec.simps) simp
qed


lemma run_2x2:
  assumes first: "first_index rnd" and room: "4 \<le> stack"
  shows "generate_rec rnd stack (Enter \<lparr>coord_x = 0, coord_y = 0\<rparr>)
      \<lparr>grid = reset_grid 2 2, draws = k, trace = [reset_grid 2 2]\<rparr>
    = Some (Inr \<lparr>grid = last trace_2x2, draws = k + 3, trace = rev trace_2x2\<rparr>)"
proof -
  define c00 where "c00 = \<lparr>coord_x = 0, coord_y = 0\<rparr>"
  define c10 where "c10 = \<lparr>coord_x = 1, coord_y = 0\<rparr>"
  define c11 where "c11 = \<lparr>coord_x = 1, coord_y = 1\<rparr>"
  define c01 where "c01 = \<lparr>coord_x = 0, coord_y = 1\<rparr>"
  define g0 where "g0 = reset_grid 2 2"
  define g1 where "g1 = mark g0 c00"
  define g2 where "g2 = broken g1 c00 Right"
  define g3 where "g3 = mark g2 c10"
  define g4 where "g4 = broken g3 c10 Bottom"
  define g5 where "g5 = mark g4 c11"
  define g6 where "g6 = broken g5 c11 Left"
  define g7 where "g7 = mark g6 c01"
  note cs = c00_def c10_def c11_def c01_def
  note gs = g7_def g6_def g5_def g4_def g3_def g2_def g1_def g0_def
  have inb: "in_bounds 2 2 c00" "in_bounds 2 2 c10" "in_bounds 2 2 c11" "in_bounds 2 2 c01"
    by (simp_all add: in_bounds_def cs)
  have mv: "move Right c00 = c10" "move Bottom c10 = c11" "move Left c11 = c01"
    by (simp_all add: cs)
  have st0: "static 2 2 g0"
    unfolding g0_def by (rule static_reset_grid)
  have st1: "static 2 2 g1"
    unfolding g1_def using st0 inb(1) by (rule static_mark)
  have st2: "static 2 2 g2"
    unfolding g2_def using st1 inb(1) by (rule static_broken) (simp add: mv inb del: move.simps)
  have st3: "static 2 2 g3"
    unfolding g3_def using st2 inb(2) by (rule static_mark)
  have st4: "static 2 2 g4"
    unfolding g4_def using st3 inb(2) by (rule static_broken) (simp add: mv inb del: move.simps)
  have st5: "static 2 2 g5"
    unfolding g5_def using st4 inb(3) by (rule static_mark)
  have st6: "static 2 2 g6"
    unfolding g6_def using st5 inb(3) by (rule static_broken) (simp add: mv inb del: move.simps)
  have st7: "static 2 2 g7"
    unfolding g7_def using st6 inb(4) by (rule static_mark)
  have adj1: "filter (\<lambda>n. \<not> visited (the_cell g1 n)) (neighbours 2 2 c00) = [c10, c01]"
    unfolding gs cs by code_simp
  have adj3: "filter (\<lambda>n. \<not> visited (the_cell g3 n)) (neighbours 2 2 c10) = [c11]"
    unfolding gs cs by code_simp
  have adj5: "filter (\<lambda>n. \<not> visited (the_cell g5 n)) (neighbours 2 2 c11) = [c01]"
    unfolding gs cs by code_simp
  have adj7: "filter (\<lambda>n. \<not> visited (the_cell g7 n)) (neighbours 2 2 c01) = []"
    "filter (\<lambda>n. \<not> visited (the_cell g7 n)) (neighbours 2 2 c11) = []"
    "filter (\<lambda>n. \<not> visited (the_cell g7 n)) (neighbours 2 2 c10) = []"
    "filter (\<lambda>n. \<not> visited (the_cell g7 n)) (neighbours 2 2 c00) = []"
    unfolding gs cs by code_simp+
  let ?t0 = "\<lparr>grid = g0, draws = k, trace = [g0]\<rparr>"
  let ?t1 = "\<lparr>grid = g1, draws = k, trace = [g1, g0]\<rparr>"
  let ?t2 = "\<lparr>grid = g2, draws = Suc k, trace = [g2, g1, g0]\<rparr>"
  let ?t3 = "\<lparr>grid = g3, draws = Suc k, trace = [g3, g2, g1, g0]\<rparr>"
  let ?t4 = "\<lparr>grid = g4, draws = Suc (Suc k), trace = [g4, g3, g2, g1, g0]\<rparr>"
  let ?t5 = "\<lparr>grid = g5, draws = Suc (Suc k), trace = [g5, g4, g3, g2, g1, g0]\<rparr>"
  let ?t6 = "\<lparr>grid = g6, draws = Suc (Suc (Suc k)), trace = [g6, g5, g4, g3, g2, g1, g0]\<rparr>"
  let ?t7 = "\<lparr>grid = g7, draws = Suc (Suc (Suc k)),
    trace = [g7, g6, g5, g4, g3, g2, g1, g0]\<rparr>"
  from room have stack: "stack \<noteq> 0" "stack - 1 \<noteq> 0" "stack - 1 - 1 \<noteq> 0"
    "stack - 1 - 1 - 1 \<noteq> 0"
    by simp_all
  have e01: "generate_rec rnd (stack - 1 - 1 - 1) (Enter c01) ?t6 = Some (Inr ?t7)"
    using enter_step [of 2 2 ?t6 c01 "stack - 1 - 1 - 1" rnd] st6 inb(4) stack(4)
    by (simp add: commit_def g7_def [symmetric] adj7 while_done)
  have w11: "generate_rec rnd (stack - 1 - 1) (While c11 [c01]) ?t5 = Some (Inr ?t7)"
    using while_step [of rnd 2 2 ?t5 c11 Left "stack - 1 - 1" ?t7 "[]"] first st5 inb e01 st7
    by (simp add: commit_def g6_def [symmetric] mv adj7 while_done del: move.simps)
  have e11: "generate_rec rnd (stack - 1 - 1) (Enter c11) ?t4 = Some (Inr ?t7)"
    using enter_step [of 2 2 ?t4 c11 "stack - 1 - 1" rnd] st4 inb(3) stack(3) w11
    by (simp add: commit_def g5_def [symmetric] adj5)
  have w10: "generate_rec rnd (stack - 1) (While c10 [c11]) ?t3 = Some (Inr ?t7)"
    using while_step [of rnd 2 2 ?t3 c10 Bottom "stack - 1" ?t7 "[]"] first st3 inb e11 st7
    by (simp add: commit_def g4_def [symmetric] mv adj7 while_done del: move.simps)
  have e10: "generate_rec rnd (stack - 1) (Enter c10) ?t2 = Some (Inr ?t7)"
    using enter_step [of 2 2 ?t2 c10 "stack - 1" rnd] st2 inb(2) stack(2) w10
    by (simp add: commit_def g3_def [symmetric] adj3)
  have w00: "generate_rec rnd stack (While c00 [c10, c01]) ?t1 = Some (Inr ?t7)"
    using while_step [of rnd 2 2 ?t1 c00 Right stack ?t7 "[c01]"] first st1 inb e10 st7
    by (simp add: commit_def g2_def [symmetric] mv adj7 while_done del: move.simps)
  have e00: "generate_rec rnd stack (Enter c00) ?t0 = Some (Inr ?t7)"
    using enter_step [of 2 2 ?t0 c00 stack rnd] st0 inb(1) stack(1) w00
    by (simp add: commit_def g1_def [symmetric] adj1)
  have tr: "trace_2x2 = [g0, g1, g2, g3, g4, g5, g6, g7]"
    by (simp add: trace_2x2_def Let_def gs cs)
  from e00 show ?thesis
    unfolding tr by (simp add: c00_def g0_def)
qed

section \<open>The random source matters through its indices only\<close>

lemma same_indices_sym: "same_indices rnd rnd' \<Longrightarrow> same_indices rnd' rnd"
  by (simp add: same_indices_def)

lemma choose_next_same:
  assumes "same_indices rnd rnd'" and "adj \<noteq> []" and "length adj \<le> 4"
  shows "choose_next rnd' s adj = choose_next rnd s adj"
proof -
  from assms(2) have "1 \<le> length adj"
    by (cases adj) simp_all
  with assms(1,3) have "random_index (rnd (draws s)) (length adj)
      = random_index (rnd' (draws s)) (length adj)"
    by (simp add: same_indices_def)
  then show ?thesis
    by (simp add: choose_next_def)
qed

lemma cell_at_few:
  assumes "cell_at g c = Inr (Some cur)" and "few_neighbours g"
  shows "length (adjacentCells cur) \<le> 4"
proof -
  note at = cell_at_Some [OF assms(1)]
  from at(1) have "g ! nat (coord_y c) \<in> set g"
    by simp
  moreover from at(2,3) have "cur \<in> set (g ! nat (coord_y c))"
    by simp
  ultimately show ?thesis
    using assms(2) by (auto simp add: few_neighbours_def)
qed

lemma unvisited_loop_length:
  "unvisited_loop g ns = Inr us \<Longrightarrow> length us \<le> length ns"
proof (induction ns arbitrary: us)
  case Nil
  then show ?case
    by simp
next
  case (Cons n ns)
  from Cons.prems obtain rest where rest: "unvisited_loop g ns = Inr rest"
    and us: "length us \<le> Suc (length rest)"
    by (auto split: sum.splits option.splits if_splits)
  from Cons.IH [OF rest] us show ?case
    by simp
qed

lemma adjacents_of_length:
  assumes "adjacents_of g c = Inr adj" and "few_neighbours g"
  shows "length adj \<le> 4"
proof -
  from assms(1) obtain cur where cur: "cell_at g c = Inr (Some cur)"
    and loop: "unvisited_loop g (adjacentCells cur) = Inr adj"
    by (auto simp add: adjacents_of_def getUnvisitedAdjacents_def split: sum.splits option.splits)
  from unvisited_loop_length [OF loop] cell_at_few [OF cur assms(2)] show ?thesis
    by simp
qed

lemma grid_shrinks_few:
  assumes "grid_shrinks g g'" and "few_neighbours g"
  shows "few_neighbours g'"
  unfolding few_neighbours_def
proof (intro ballI)
  fix row' cell'
  assume "row' \<in> set g'" and "cell' \<in> set row'"
  then obtain i j where i: "i < length g'" "g' ! i = row'"
    and j: "j < length row'" "row' ! j = cell'"
    by (auto simp add: in_set_conv_nth)
  from assms(1) have len: "length g = length g'"
    unfolding grid_shrinks_def by (rule list_all2_lengthD)
  from len i(1) have ig: "i < length g"
    by simp
  from assms(1) have "list_all2 (list_all2 cell_shrinks) g g'"
    by (simp add: grid_shrinks_def)
  from this ig have row: "list_all2 cell_shrinks (g ! i) (g' ! i)"
    by (rule list_all2_nthD)
  then have lenr: "length (g ! i) = length (g' ! i)"
    by (rule list_all2_lengthD)
  with i(2) j(1) have jg: "j < length (g ! i)"
    by simp
  from row jg have "cell_shrinks (g ! i ! j) (g' ! i ! j)"
    by (rule list_all2_nthD)
  with i(2) j(2) have "adjacentCells cell' = adjacentCells (g ! i ! j)"
    by (simp add: cell_shrinks_def)
  moreover from len i(1) have "g ! i \<in> set g"
    by simp
  moreover from lenr i(2) j(1) have "g ! i ! j \<in> set (g ! i)"
    by simp
  ultimately show "length (adjacentCells cell') \<le> 4"
    using assms(2) by (auto simp add: few_neighbours_def)
qed

lemma visit_shrinks: "visit s c = Inr s' \<Longrightarrow> grid_shrinks (grid s) (grid s')"
  by (auto simp add: visit_def commit_simps split: sum.splits option.splits
      intro!: grid_shrinks_put_cell grid_shrinks_refl cell_shrinks_visited)

lemma break_at_shrinks:
  assumes "break_at s c n wall = Inr s'"
  shows "grid_shrinks (grid s) (grid s')"
proof -
  from assms obtain current nextNode
    where cur: "cell_at (grid s) c = Inr (Some current)"
      and nxt: "cell_at (grid s) n = Inr (Some nextNode)"
      and s': "s' = commit s (put_cell (put_cell (grid s) c (fst (breakCellWalls current nextNode wall)))
          n (snd (breakCellWalls current nextNode wall)))"
    by (auto simp add: break_at_def split: sum.splits option.splits prod.splits)
  have "cell_shrinks current (fst (breakCellWalls current nextNode wall))"
    and "cell_shrinks nextNode (snd (breakCellWalls current nextNode wall))"
    by (rule breakCellWalls_shrinks)+
  with cur nxt show ?thesis
    unfolding s' commit_simps
    by (intro grid_shrinks_put_cell [where c = n] grid_shrinks_put_cell [where c = c]
        grid_shrinks_refl)
qed

lemma break_toward_shrinks:
  assumes "break_toward s c n = Inr s'"
  shows "grid_shrinks (grid s) (grid s')"
proof -
  have one: "(if p then break_at t c n wa else if q then break_at t c n wb else Inr t) = Inr t'
      \<Longrightarrow> grid_shrinks (grid t) (grid t')" for p q t t' wa wb
    by (auto split: if_splits intro: break_at_shrinks grid_shrinks_refl)
  from assms obtain s1
    where "(if coord_x n > coord_x c then break_at s c n WALL_RIGHT
            else if coord_x n < coord_x c then break_at s c n WALL_LEFT else Inr s) = Inr s1"
      and "(if coord_y n > coord_y c then break_at s1 c n WALL_BOTTOM
            else if coord_y n < coord_y c then break_at s1 c n WALL_TOP else Inr s1) = Inr s'"
    unfolding break_toward_def by (auto split: sum.splits)
  then have "grid_shrinks (grid s) (grid s1)" and "grid_shrinks (grid s1) (grid s')"
    by (auto dest: one)
  then show ?thesis
    by (rule grid_shrinks_trans)
qed

lemma choose_next_grid: "choose_next rnd s adj = Inr (n, s') \<Longrightarrow> grid s' = grid s"
  by (auto simp add: choose_next_def split: option.splits)

lemma few_neighbours_reset_grid: "few_neighbours (reset_grid w h)"
  by (auto simp add: few_neighbours_def reset_grid_def reset_cell_def MazeCell_new_def)

lemma generate_rec_same_Some:
  assumes same: "same_indices rnd rnd'"
    and few: "few_neighbours (grid s)"
    and cand: "\<forall>c adj. fr = While c adj \<longrightarrow> length adj \<le> 4"
    and run: "generate_rec rnd stack fr s = Some r"
  shows "generate_rec rnd' stack fr s = Some r \<and>
    (\<forall>s'. r = Inr s' \<longrightarrow> few_neighbours (grid s'))"
proof -
  have "same_indices rnd rnd' \<and> few_neighbours (grid s) \<and>
        (\<forall>c adj. fr = While c adj \<longrightarrow> length adj \<le> 4)
      \<longrightarrow> generate_rec rnd' stack fr s = Some r \<and>
        (\<forall>s'. r = Inr s' \<longrightarrow> few_neighbours (grid s'))"
    using run
  proof (rule generate_rec.raw_induct [rotated, where P = "\<lambda>rnd stack fr s r.
      same_indices rnd rnd' \<and> few_neighbours (grid s) \<and>
        (\<forall>c adj. fr = While c adj \<longrightarrow> length adj \<le> 4)
      \<longrightarrow> generate_rec rnd' stack fr s = Some r \<and>
        (\<forall>s'. r = Inr s' \<longrightarrow> few_neighbours (grid s'))"])
    fix g :: "(nat \<Rightarrow> real) \<Rightarrow> nat \<Rightarrow> frame \<Rightarrow> run_state \<Rightarrow> (js_error + run_state) option"
    fix rnd stack fr s r
    assume IH: "\<And>rnd stack fr s y. g rnd stack fr s = Some y
      \<Longrightarrow> same_indices rnd rnd' \<and> few_neighbours (grid s) \<and>
          (\<forall>c adj. fr = While c adj \<longrightarrow> length adj \<le> 4)
        \<longrightarrow> generate_rec rnd' stack fr s = Some y \<and>
          (\<forall>s'. y = Inr s' \<longrightarrow> few_neighbours (grid s'))"
    assume eq: "(case fr of
        Enter coord \<Rightarrow>
          (if stack = 0 then Some (Inl RangeError)
           else (case visit s coord of
                   Inl e \<Rightarrow> Some (Inl e)
                 | Inr s1 \<Rightarrow>
                     (case adjacents_of (grid s1) coord of
                        Inl e \<Rightarrow> Some (Inl e)
                      | Inr adjacents \<Rightarrow> g rnd stack (While coord adjacents) s1)))
      | While coord adjacents \<Rightarrow>
          (if \<not> length adjacents > 0 then Some (Inr s)
           else (case choose_next rnd s adjacents of
                   Inl e \<Rightarrow> Some (Inl e)
                 | Inr (next, s1) \<Rightarrow>
                     (case break_toward s1 coord next of
                        Inl e \<Rightarrow> Some (Inl e)
                      | Inr s2 \<Rightarrow>
                          Option.bind (g rnd (stack - 1) (Enter next) s2)
                            (\<lambda>r. case r of
                               Inl e \<Rightarrow> Some (Inl e)
                             | Inr s3 \<Rightarrow>
                                 (case adjacents_of (grid s3) coord of
                                    Inl e \<Rightarrow> Some (Inl e)
                                  | Inr adjacents' \<Rightarrow>
                                      g rnd stack (While coord adjacents') s3)))))) = Some r"
    show "same_indices rnd rnd' \<and> few_neighbours (grid s) \<and>
          (\<forall>c adj. fr = While c adj \<longrightarrow> length adj \<le> 4)
        \<longrightarrow> generate_rec rnd' stack fr s = Some r \<and>
          (\<forall>s'. r = Inr s' \<longrightarrow> few_neighbours (grid s'))"
    proof
      assume pre: "same_indices rnd rnd' \<and> few_neighbours (grid s) \<and>
          (\<forall>c adj. fr = While c adj \<longrightarrow> length adj \<le> 4)"
      then have same: "same_indices rnd rnd'" and few: "few_neighbours (grid s)"
        and cand: "\<forall>c adj. fr = While c adj \<longrightarrow> length adj \<le> 4"
        by simp_all
      show "generate_rec rnd' stack fr s = Some r \<and>
          (\<forall>s'. r = Inr s' \<longrightarrow> few_neighbours (grid s'))"
      proof (cases fr)
        case (Enter c)
        note eq' = eq [unfolded Enter, simplified]
        show ?thesis
        proof (cases "stack = 0")
          case True
          with eq' have r: "r = Inl RangeError"
            by simp
          from True Enter show ?thesis
            unfolding r by (subst generate_rec.simps) simp
        next
          case False
          show ?thesis
          proof (cases "visit s c")
            case (Inl e)
            with eq' False Enter have r: "r = Inl e"
              by simp
            from Inl False Enter show ?thesis
              unfolding r by (subst generate_rec.simps) simp
          next
            case vis: (Inr s1)
            from grid_shrinks_few [OF visit_shrinks [OF vis] few]
            have few1: "few_neighbours (grid s1)" .
            show ?thesis
            proof (cases "adjacents_of (grid s1) c")
              case (Inl e)
              with eq' False Enter vis have r: "r = Inl e"
                by simp
              from Inl False Enter vis show ?thesis
                unfolding r by (subst generate_rec.simps) simp
            next
              case (Inr adj)
              with eq' False vis have "g rnd stack (While c adj) s1 = Some r"
                by simp
              moreover from adjacents_of_length [OF Inr few1] have "length adj \<le> 4" .
              ultimately have "generate_rec rnd' stack (While c adj) s1 = Some r"
                and res: "\<forall>s'. r = Inr s' \<longrightarrow> few_neighbours (grid s')"
                using IH same few1 by simp_all
              with False Enter vis Inr have "generate_rec rnd' stack fr s = Some r"
                by (subst generate_rec.simps) simp
              with res show ?thesis
                by simp
            qed
          qed
        qed
      next
        case (While c adj)
        note eq' = eq [unfolded While, simplified]
        from cand While have len: "length adj \<le> 4"
          by simp
        show ?thesis
        proof (cases "adj = []")
          case True
          with eq' have r: "r = Inr s"
            by simp
          from True While few show ?thesis
            unfolding r by (subst generate_rec.simps) simp
        next
          case False
          note ch = choose_next_same [OF same False len, of s]
          show ?thesis
          proof (cases "choose_next rnd s adj")
            case (Inl e)
            with eq' False While ch have r: "r = Inl e"
              by simp
            from Inl False While ch show ?thesis
              unfolding r by (subst generate_rec.simps) simp
          next
            case (Inr p)
            obtain n s1 where p: "p = (n, s1)"
              by (cases p)
            note chn = Inr [unfolded p]
            from choose_next_grid [OF chn] few have few1: "few_neighbours (grid s1)"
              by simp
            show ?thesis
            proof (cases "break_toward s1 c n")
              case (Inl e)
              with eq' False While ch chn have r: "r = Inl e"
                by simp
              from Inl False While ch chn show ?thesis
                unfolding r by (subst generate_rec.simps) simp
            next
              case brk: (Inr s2)
              from grid_shrinks_few [OF break_toward_shrinks [OF brk] few1]
              have few2: "few_neighbours (grid s2)" .
              show ?thesis
              proof (cases "g rnd (stack - 1) (Enter n) s2")
                case None
                with eq' False chn brk show ?thesis
                  by simp
              next
                case (Some y)
                with IH same few2
                have call: "generate_rec rnd' (stack - 1) (Enter n) s2 = Some y"
                  and resy: "\<forall>s'. y = Inr s' \<longrightarrow> few_neighbours (grid s')"
                  by simp_all
                show ?thesis
                proof (cases y)
                  case (Inl e)
                  with eq' False While ch chn brk Some call have r: "r = Inl e"
                    by simp
                  from Inl False While ch chn brk Some call show ?thesis
                    unfolding r by (subst generate_rec.simps) simp
                next
                  case y: (Inr s3)
                  with resy have few3: "few_neighbours (grid s3)"
                    by simp
                  show ?thesis
                  proof (cases "adjacents_of (grid s3) c")
                    case (Inl e)
                    with eq' False While ch chn brk Some call y have r: "r = Inl e"
                      by simp
                    from Inl False While ch chn brk Some call y show ?thesis
                      unfolding r by (subst generate_rec.simps) simp
                  next
                    case adj': (Inr adj')
                    with eq' False chn brk Some y
                    have "g rnd stack (While c adj') s3 = Some r"
                      by simp
                    moreover from adjacents_of_length [OF adj' few3] have "length adj' \<le> 4" .
                    ultimately have "generate_rec rnd' stack (While c adj') s3 = Some r"
                      and res: "\<forall>s'. r = Inr s' \<longrightarrow> few_neighbours (grid s')"
                      using IH same few3 by simp_all
                    with False While ch chn brk call y adj'
                    have "generate_rec rnd' stack fr s = Some r"
                      by (subst generate_rec.simps) simp
                    with res show ?thesis
                      by simp
                  qed
                qed
              qed
            qed
          qed
        qed
      qed
    qed
  qed
  with same few cand show ?thesis
    by blast
qed

lemma generate_rec_same:
  assumes "same_indices rnd rnd'" and "few_neighbours (grid s)"
  shows "generate_rec rnd stack (Enter c) s = generate_rec rnd' stack (Enter c) s"
proof (cases "generate_rec rnd stack (Enter c) s")
  case (Some r)
  with generate_rec_same_Some [OF assms, of "Enter c" stack r] show ?thesis
    by simp
next
  case None
  show ?thesis
  proof (cases "generate_rec rnd' stack (Enter c) s")
    case (Some r)
    from generate_rec_same_Some [OF same_indices_sym [OF assms(1)] assms(2), of "Enter c" stack r]
      Some None
    show ?thesis
      by simp
  next
    case n: None
    with None show ?thesis
      by simp
  qed
qed

lemma generate_same:
  assumes "same_indices rnd rnd'"
  shows "generate rnd stack (reset this) k coord = generate rnd' stack (reset this) k coord"
  using generate_rec_same [OF assms, of
      "\<lparr>grid = reset_grid (width this) (height this), draws = k,
        trace = [reset_grid (width this) (height this)]\<rparr>" stack coord]
  by (simp add: generate_def reset_def few_neighbours_reset_grid)

section \<open>The run on the 2 by 2 grid\<close>

lemma zero_source: "random_source (\<lambda>k. 0)" "first_index (\<lambda>k. 0)"
  by (simp_all add: random_source_def first_index_def random_index_def)

lemma generate_2x2:
  assumes "first_index rnd" and "4 \<le> stack"
  shows "generate rnd stack (reset (Maze_new 2 2)) k \<lparr>coord_x = 0, coord_y = 0\<rparr>
    = Some (Inr ((reset (Maze_new 2 2))\<lparr>cells := Some (last trace_2x2)\<rparr>, k + 3, trace_2x2))"
proof -
  from assms(2) have "stack \<noteq> 0"
    by simp
  with run_2x2 [OF assms, of k] show ?thesis
    using generate_reset_Inr [of rnd stack "\<lparr>coord_x = 0, coord_y = 0\<rparr>" "Maze_new 2 2" k]
    by (simp add: Maze_new_def)
qed

lemma trace_2x2_masks:
  "map (map (map (\<lambda>c. (walls c, visited c)))) trace_2x2 =
    [[[(15, False), (15, False)], [(15, False), (15, False)]],
     [[(15, True), (15, False)], [(15, False), (15, False)]],
     [[(11, True), (14, False)], [(15, False), (15, False)]],
     [[(11, True), (14, True)], [(15, False), (15, False)]],
     [[(11, True), (12, True)], [(15, False), (7, False)]],
     [[(11, True), (12, True)], [(15, False), (7, True)]],
     [[(11, True), (12, True)], [(11, False), (6, True)]],
     [[(11, True), (12, True)], [(11, True), (6, True)]]]"
  by code_simp

lemma tenth_source:
  "random_source (\<lambda>k. 1 / 10)" "first_index (\<lambda>k. 1 / 10)"
  "same_indices (\<lambda>k. 1 / 10) (\<lambda>k. 0)"
proof -
  have "\<lfloor>(1 / 10 :: real) * real n\<rfloor> = 0" if "1 \<le> n" and "n \<le> 4" for n
  proof -
    from that have "0 \<le> (1 / 10 :: real) * real n" and "(1 / 10 :: real) * real n < 1"
      by simp_all
    then show ?thesis
      by (simp add: floor_eq_iff)
  qed
  then show "first_index (\<lambda>k. 1 / 10)" and "same_indices (\<lambda>k. 1 / 10) (\<lambda>k. 0)"
    by (simp_all add: first_index_def same_indices_def random_index_def)
  show "random_source (\<lambda>k. 1 / 10)"
    by (simp add: random_source_def)
qed

lemma random_index_later: "random_index (1 / 2) 2 = 1" "random_index (3 / 4) 4 = 3"
  by (simp_all add: random_index_def)

text \<open>
  Claim C8. On a maze that has been reset, \<open>generate\<close> depends on the random
  source only through the indices it selects: two sources whose values select
  the same index among one, two, three and four candidates give the same
  result, whatever the values are. With any source that always selects index
  0, and room for four nested calls, \<open>generate\<close> from \<open>(0, 0)\<close> on the reset
  2 by 2 grid makes three draws and leaves one fixed maze; its writes are, in
  order: enter \<open>(0, 0)\<close>, break the right wall of \<open>(0, 0)\<close> with the left
  wall of \<open>(1, 0)\<close>, enter \<open>(1, 0)\<close>, break bottom with top of \<open>(1, 1)\<close>,
  enter \<open>(1, 1)\<close>, break left with right of \<open>(0, 1)\<close>, enter \<open>(0, 1)\<close>. The
  masks and visited flags after each write are listed row by row.
\<close>

theorem generate_deterministic:
  "(same_indices rnd rnd' \<longrightarrow>
      generate rnd stack (reset this) k coord = generate rnd' stack (reset this) k coord) \<and>
   (first_index rnd \<and> 4 \<le> stack \<longrightarrow>
      generate rnd stack (reset (Maze_new 2 2)) k \<lparr>coord_x = 0, coord_y = 0\<rparr>
        = Some (Inr ((reset (Maze_new 2 2))\<lparr>cells := Some (last trace_2x2)\<rparr>, k + 3, trace_2x2))) \<and>
   map (map (map (\<lambda>c. (walls c, visited c)))) trace_2x2 =
    [[[(15, False), (15, False)], [(15, False), (15, False)]],
     [[(15, True), (15, False)], [(15, False), (15, False)]],
     [[(11, True), (14, False)], [(15, False), (15, False)]],
     [[(11, True), (14, True)], [(15, False), (15, False)]],
     [[(11, True), (12, True)], [(15, False), (7, False)]],
     [[(11, True), (12, True)], [(15, False), (7, True)]],
     [[(11, True), (12, True)], [(11, False), (6, True)]],
     [[(11, True), (12, True)], [(11, True), (6, True)]]]"
  using generate_same [of rnd rnd' stack this k coord] generate_2x2 [of rnd stack k]
    trace_2x2_masks
  by blast

theorem generate_deterministic_witness:
  "same_indices (\<lambda>k. 1 / 10) (\<lambda>k. 0) \<and> (\<lambda>k. 1 / 10 :: real) \<noteq> (\<lambda>k. 0) \<and>
   first_index (\<lambda>k. 1 / 10) \<and> 4 \<le> (4 :: nat) \<and>
   generate (\<lambda>k. 1 / 10) 4 (reset (Maze_new 2 2)) 0 \<lparr>coord_x = 0, coord_y = 0\<rparr>
     = generate (\<lambda>k. 0) 4 (reset (Maze_new 2 2)) 0 \<lparr>coord_x = 0, coord_y = 0\<rparr> \<and>
   generate (\<lambda>k. 1 / 10) 4 (reset (Maze_new 2 2)) 0 \<lparr>coord_x = 0, coord_y = 0\<rparr>
     = Some (Inr ((reset (Maze_new 2 2))\<lparr>cells := Some (last trace_2x2)\<rparr>, 3, trace_2x2))"
proof -
  have ne: "(\<lambda>k. 1 / 10 :: real) \<noteq> (\<lambda>k. 0)"
    by (auto dest: fun_cong)
  note det = generate_deterministic [of "\<lambda>k. 1 / 10" "\<lambda>k. 0" 4 "Maze_new 2 2" 0
      "\<lparr>coord_x = 0, coord_y = 0\<rparr>"]
  from det tenth_source(3)
  have same: "generate (\<lambda>k. 1 / 10) 4 (reset (Maze_new 2 2)) 0 \<lparr>coord_x = 0, coord_y = 0\<rparr>
     = generate (\<lambda>k. 0) 4 (reset (Maze_new 2 2)) 0 \<lparr>coord_x = 0, coord_y = 0\<rparr>"
    by blast
  from det tenth_source(2)
  have run: "generate (\<lambda>k. 1 / 10) 4 (reset (Maze_new 2 2)) 0 \<lparr>coord_x = 0, coord_y = 0\<rparr>
     = Some (Inr ((reset (Maze_new 2 2))\<lparr>cells := Some (last trace_2x2)\<rparr>, 3, trace_2x2))"
    by simp
  have "4 \<le> (4 :: nat)"
    by simp
  with ne same run tenth_source(2,3) show ?thesis
    by blast
qed

lemma small_hyps:
  "1 \<le> width (Maze_new 2 2)" "1 \<le> height (Maze_new 2 2)"
  "in_bounds (width (Maze_new 2 2)) (height (Maze_new 2 2)) \<lparr>coord_x = 0, coord_y = 0\<rparr>"
  "nat (width (Maze_new 2 2) * height (Maze_new 2 2)) \<le> 4"
  by (simp_all add: Maze_new_def in_bounds_def)

theorem generate_spanning_tree_witness:
  "1 \<le> width (Maze_new 2 2) \<and> 1 \<le> height (Maze_new 2 2) \<and>
   in_bounds (width (Maze_new 2 2)) (height (Maze_new 2 2)) \<lparr>coord_x = 0, coord_y = 0\<rparr> \<and>
   random_source (\<lambda>k. 0) \<and> nat (width (Maze_new 2 2) * height (Maze_new 2 2)) \<le> 4 \<and>
   (\<exists>this' k' tr g'.
      generate (\<lambda>k. 0) 4 (reset (Maze_new 2 2)) 0 \<lparr>coord_x = 0, coord_y = 0\<rparr>
        = Some (Inr (this', k', tr)) \<and>
      cells this' = Some g' \<and>
      (\<forall>c. in_bounds 2 2 c \<longrightarrow> reachable 2 2 g' \<lparr>coord_x = 0, coord_y = 0\<rparr> c) \<and>
      int (broken_wall_pairs 2 2 g') = 3)"
  using generate_spanning_tree [OF small_hyps(1-3) zero_source(1) small_hyps(4), of 0]
    small_hyps zero_source(1)
  by (simp add: Maze_new_def)

theorem generate_wall_symmetry_witness:
  "1 \<le> width (Maze_new 2 2) \<and> 1 \<le> height (Maze_new 2 2) \<and>
   in_bounds (width (Maze_new 2 2)) (height (Maze_new 2 2)) \<lparr>coord_x = 0, coord_y = 0\<rparr> \<and>
   random_source (\<lambda>k. 0) \<and> nat (width (Maze_new 2 2) * height (Maze_new 2 2)) \<le> 4 \<and>
   (\<exists>this' k' tr.
      generate (\<lambda>k. 0) 4 (reset (Maze_new 2 2)) 0 \<lparr>coord_x = 0, coord_y = 0\<rparr>
        = Some (Inr (this', k', tr)) \<and>
      tr \<noteq> [] \<and> cells (reset (Maze_new 2 2)) = Some (hd tr) \<and> cells this' = Some (last tr) \<and>
      (\<forall>g \<in> set tr. wall_symmetry 2 2 g))"
  using generate_wall_symmetry [OF small_hyps(1-3) zero_source(1) small_hyps(4), of 0]
    small_hyps zero_source(1)
  by (simp add: Maze_new_def)

theorem generate_terminates_witness:
  "1 \<le> width (Maze_new 2 2) \<and> 1 \<le> height (Maze_new 2 2) \<and>
   in_bounds (width (Maze_new 2 2)) (height (Maze_new 2 2)) \<lparr>coord_x = 0, coord_y = 0\<rparr> \<and>
   random_source (\<lambda>k. 0) \<and> nat (width (Maze_new 2 2) * height (Maze_new 2 2)) \<le> 4 \<and>
   (\<exists>this' k' tr.
      generate (\<lambda>k. 0) 4 (reset (Maze_new 2 2)) 0 \<lparr>coord_x = 0, coord_y = 0\<rparr>
        = Some (Inr (this', k', tr)))"
  using generate_terminates [OF small_hyps(1-3) zero_source(1) small_hyps(4), of 0]
    small_hyps zero_source(1)
  by simp

theorem generate_only_removes_witness:
  "generate (\<lambda>k. 0) 4 (reset (Maze_new 2 2)) 0 \<lparr>coord_x = 0, coord_y = 0\<rparr>
     = Some (Inr ((reset (Maze_new 2 2))\<lparr>cells := Some (last trace_2x2)\<rparr>, 3, trace_2x2)) \<and>
   trace_2x2 \<noteq> [] \<and> cells (reset (Maze_new 2 2)) = Some (hd trace_2x2) \<and>
   sorted_wrt grid_shrinks trace_2x2"
  using generate_only_removes [OF generate_2x2 [OF zero_source(2), of 4 0]]
    generate_2x2 [OF zero_source(2), of 4 0]
  by simp

section \<open>Reset, and reading a mask\<close>

lemma run_ops_dims:
  "run_ops rnd stack ops this k = Some (Inr (this', k')) \<Longrightarrow>
   width this' = width this \<and> height this' = height this"
proof (induction ops arbitrary: this k)
  case Nil
  then show ?case
    by simp
next
  case (Cons op ops)
  show ?case
  proof (cases op)
    case Reset
    with Cons.prems have "run_ops rnd stack ops (reset this) k = Some (Inr (this', k'))"
      by simp
    from Cons.IH [OF this] show ?thesis
      by (simp add: reset_def)
  next
    case (Generate c)
    with Cons.prems obtain m1 k1 tr
      where gen: "generate rnd stack this k c = Some (Inr (m1, k1, tr))"
        and rest: "run_ops rnd stack ops m1 k1 = Some (Inr (this', k'))"
      by (auto split: option.splits sum.splits)
    from generate_trace [OF gen] Cons.IH [OF rest] show ?thesis
      by simp
  qed
qed

lemma reset_eq: "width a = width b \<Longrightarrow> height a = height b \<Longrightarrow> reset a = reset b"
  for a b :: Maze
  by (simp add: reset_def)

lemma cell_at_reset_grid:
  assumes "in_bounds w h c"
  shows "cell_at (reset_grid w h) c = Inr (Some
    \<lparr>cell_x = coord_x c, cell_y = coord_y c, walls = 15,
     adjacentCells =
       (if coord_x c > 0 then [\<lparr>coord_x = coord_x c - 1, coord_y = coord_y c\<rparr>] else []) @
       (if coord_x c < w - 1 then [\<lparr>coord_x = coord_x c + 1, coord_y = coord_y c\<rparr>] else []) @
       (if coord_y c > 0 then [\<lparr>coord_x = coord_x c, coord_y = coord_y c - 1\<rparr>] else []) @
       (if coord_y c < h - 1 then [\<lparr>coord_x = coord_x c, coord_y = coord_y c + 1\<rparr>] else []),
     visited = False\<rparr>)"
proof -
  have "cell_at (reset_grid w h) c = Inr (Some (the_cell (reset_grid w h) c))"
    using shape_reset_grid assms by (rule cell_at_in)
  then show ?thesis
    by (simp add: the_cell_reset_grid [OF assms] reset_cell_def MazeCell_new_def wall_values)
qed

text \<open>
  Claim C5. \<open>reset\<close> after \<open>reset\<close> changes nothing; after any sequence of
  \<open>reset\<close> and \<open>generate\<close> calls that has run to its end, one more \<open>reset\<close>
  gives the maze that \<open>reset\<close> gives on the maze the sequence started from;
  \<open>reset\<close> keeps width and height; and the grid it builds has \<open>height\<close> rows
  of \<open>width\<close> cells, the cell at \<open>(x, y)\<close> holding its coordinates, mask
  15, \<open>visited = false\<close> and the neighbour list left, right, top, bottom
  restricted to the grid.
\<close>

theorem reset_idempotent:
  "reset (reset this) = reset this \<and>
   (run_ops rnd stack ops this k = Some (Inr (this', k')) \<longrightarrow> reset this' = reset this) \<and>
   width (reset this) = width this \<and> height (reset this) = height this \<and>
   (\<exists>g. cells (reset this) = Some g \<and> length g = nat (height this) \<and>
      (\<forall>i < length g. length (g ! i) = nat (width this)) \<and>
      (\<forall>c. in_bounds (width this) (height this) c \<longrightarrow>
         cell_at g c = Inr (Some
           \<lparr>cell_x = coord_x c, cell_y = coord_y c, walls = 15,
            adjacentCells =
              (if coord_x c > 0 then [\<lparr>coord_x = coord_x c - 1, coord_y = coord_y c\<rparr>] else []) @
              (if coord_x c < width this - 1
               then [\<lparr>coord_x = coord_x c + 1, coord_y = coord_y c\<rparr>] else []) @
              (if coord_y c > 0 then [\<lparr>coord_x = coord_x c, coord_y = coord_y c - 1\<rparr>] else []) @
              (if coord_y c < height this - 1
               then [\<lparr>coord_x = coord_x c, coord_y = coord_y c + 1\<rparr>] else []),
            visited = False\<rparr>)))"
proof -
  have "reset (reset this) = reset this"
    by (simp add: reset_def)
  moreover have "reset this' = reset this"
    if "run_ops rnd stack ops this k = Some (Inr (this', k'))"
    using run_ops_dims [OF that] by (intro reset_eq) simp_all
  moreover have "width (reset this) = width this" "height (reset this) = height this"
    "cells (reset this) = Some (reset_grid (width this) (height this))"
    by (simp_all add: reset_def)
  moreover have "shape (width this) (height this) (reset_grid (width this) (height this))"
    by (rule shape_reset_grid)
  ultimately show ?thesis
    using cell_at_reset_grid [of "width this" "height this"]
    by (simp add: shape_def)
qed

theorem reset_idempotent_witness:
  "run_ops (\<lambda>k. 0) 4 [Reset, Generate \<lparr>coord_x = 0, coord_y = 0\<rparr>] (Maze_new 2 2) 0
     = Some (Inr ((reset (Maze_new 2 2))\<lparr>cells := Some (last trace_2x2)\<rparr>, 3)) \<and>
   in_bounds (width (Maze_new 2 2)) (height (Maze_new 2 2)) \<lparr>coord_x = 1, coord_y = 0\<rparr> \<and>
   reset ((reset (Maze_new 2 2))\<lparr>cells := Some (last trace_2x2)\<rparr>) = reset (Maze_new 2 2) \<and>
   (\<exists>g. cells (reset (Maze_new 2 2)) = Some g \<and>
      cell_at g \<lparr>coord_x = 1, coord_y = 0\<rparr> = Inr (Some
        \<lparr>cell_x = 1, cell_y = 0, walls = 15,
         adjacentCells = [\<lparr>coord_x = 0, coord_y = 0\<rparr>, \<lparr>coord_x = 1, coord_y = 1\<rparr>],
         visited = False\<rparr>))"
proof -
  have run: "run_ops (\<lambda>k. 0) 4 [Reset, Generate \<lparr>coord_x = 0, coord_y = 0\<rparr>] (Maze_new 2 2) 0
     = Some (Inr ((reset (Maze_new 2 2))\<lparr>cells := Some (last trace_2x2)\<rparr>, 3))"
    by (simp add: generate_2x2 [OF zero_source(2), of 4 0])
  have inb: "in_bounds (width (Maze_new 2 2)) (height (Maze_new 2 2)) \<lparr>coord_x = 1, coord_y = 0\<rparr>"
    by (simp add: in_bounds_def Maze_new_def)
  from reset_idempotent [of "Maze_new 2 2" "\<lambda>k. 0" 4
      "[Reset, Generate \<lparr>coord_x = 0, coord_y = 0\<rparr>]" 0
      "(reset (Maze_new 2 2))\<lparr>cells := Some (last trace_2x2)\<rparr>" 3] run inb
  show ?thesis
    by (auto simp add: Maze_new_def)
qed

lemma grid_shrinks_shape:
  assumes "grid_shrinks g g'" and "shape w h g"
  shows "shape w h g'"
proof -
  from assms(1) have len: "length g' = length g"
    and rows: "\<And>i. i < length g \<Longrightarrow> list_all2 cell_shrinks (g ! i) (g' ! i)"
    by (auto simp add: grid_shrinks_def list_all2_lengthD intro: list_all2_nthD)
  have "length (g' ! i) = length (g ! i)" if "i < length g" for i
    using rows [OF that] by (simp add: list_all2_lengthD)
  with len assms(2) show ?thesis
    by (simp add: shape_def)
qed

lemma grid_shrinks_cell:
  assumes "grid_shrinks g g'" and "shape w h g" and "in_bounds w h c"
  shows "cell_shrinks (the_cell g c) (the_cell g' c)"
proof -
  from assms(2,3) have y: "nat (coord_y c) < length g"
    by (auto simp add: shape_def in_bounds_def)
  with assms(1) have row: "list_all2 cell_shrinks (g ! nat (coord_y c)) (g' ! nat (coord_y c))"
    unfolding grid_shrinks_def by (rule list_all2_nthD)
  from assms(2,3) have "nat (coord_x c) < length (g ! nat (coord_y c))"
    using shape_row [of w h g "coord_y c"] by (auto simp add: in_bounds_def)
  with row show ?thesis
    unfolding the_cell_def by (rule list_all2_nthD)
qed

lemma sorted_wrt_hd_last:
  assumes "sorted_wrt R xs" and "xs \<noteq> []" and "\<And>x. R x x"
  shows "R (hd xs) (last xs)"
proof (cases xs)
  case Nil
  with assms(2) show ?thesis
    by simp
next
  case (Cons x rest)
  show ?thesis
  proof (cases "rest = []")
    case True
    with Cons assms(3) show ?thesis
      by simp
  next
    case False
    then have "last rest \<in> set rest"
      by simp
    with assms(1) Cons False show ?thesis
      by simp
  qed
qed

lemma generated_grid:
  assumes "generate rnd stack (reset this) k coord = Some (Inr (this', k', tr))"
  shows "\<exists>g. cells this' = Some g \<and> grid_shrinks (reset_grid (width this) (height this)) g"
proof -
  from generate_trace [OF assms] have tr: "tr \<noteq> []"
    and first: "hd tr = reset_grid (width this) (height this)"
    and last: "cells this' = Some (last tr)" and ord: "sorted_wrt grid_shrinks tr"
    by (simp_all add: reset_def)
  from ord tr grid_shrinks_refl have "grid_shrinks (hd tr) (last tr)"
    by (rule sorted_wrt_hd_last)
  with first last show ?thesis
    by simp
qed

lemma cellWalls_in:
  assumes "cells this = Some g" and "shape (width this) (height this) g"
    and "in_bounds (width this) (height this) c"
  shows "cellWalls this c = Inr (walls (the_cell g c))"
proof -
  from assms(2,3) have "cell_at g c = Inr (Some (the_cell g c))"
    by (rule cell_at_in)
  with assms(1,3) show ?thesis
    by (simp add: cellWalls_def in_bounds_def)
qed

lemma cellWalls_out:
  "\<not> in_bounds (width this) (height this) c \<Longrightarrow> cellWalls this c = Inl RangeError"
  by (simp add: cellWalls_def in_bounds_def)

text \<open>
  Claim C7, against the accessor modelled from the spec. On a maze that has
  been reset, or reset and then generated, \<open>cellWalls\<close> gives, at a coordinate
  inside the grid, the mask of that cell, a value of at most 15 whose bits 3,
  2, 1, 0 are the standing walls; at a coordinate outside the grid it fails
  with a range error.
\<close>

theorem cellWalls_mask:
  assumes "this' = reset this \<or>
    (\<exists>rnd stack k coord k' tr.
       generate rnd stack (reset this) k coord = Some (Inr (this', k', tr)))"
  shows "(in_bounds (width this') (height this') c \<longrightarrow>
      (\<exists>g m. cells this' = Some g \<and> cellWalls this' c = Inr m \<and> m = walls (the_cell g c) \<and>
         m \<le> 15 \<and> (\<forall>d. bit m (bit_of d) = has_wall g c d))) \<and>
    (\<not> in_bounds (width this') (height this') c \<longrightarrow> cellWalls this' c = Inl RangeError)"
proof -
  let ?w = "width this" and ?h = "height this"
  have "width this' = ?w \<and> height this' = ?h \<and>
      (\<exists>g. cells this' = Some g \<and> grid_shrinks (reset_grid ?w ?h) g)"
    using assms
  proof
    assume "this' = reset this"
    then show ?thesis
      by (simp add: reset_def grid_shrinks_refl)
  next
    assume "\<exists>rnd stack k coord k' tr.
       generate rnd stack (reset this) k coord = Some (Inr (this', k', tr))"
    then obtain rnd stack k coord k' tr
      where run: "generate rnd stack (reset this) k coord = Some (Inr (this', k', tr))"
      by blast
    from generate_trace [OF run] generated_grid [OF run] show ?thesis
      by (simp add: reset_def)
  qed
  then obtain g where dims: "width this' = ?w" "height this' = ?h"
    and g: "cells this' = Some g" and shr: "grid_shrinks (reset_grid ?w ?h) g"
    by blast
  from shr shape_reset_grid have shape: "shape ?w ?h g"
    by (rule grid_shrinks_shape)
  have inside: "cellWalls this' c = Inr (walls (the_cell g c))" if "in_bounds ?w ?h c"
    using g shape that cellWalls_in [of this' g c] by (simp add: dims)
  have small: "walls (the_cell g c) \<le> 15" if c: "in_bounds ?w ?h c"
  proof -
    from grid_shrinks_cell [OF shr shape_reset_grid c]
    have "walls (the_cell g c) AND 15 = walls (the_cell g c)"
      by (simp add: cell_shrinks_def the_cell_reset_grid [OF c] walls_reset_cell)
    then have "walls (the_cell g c) = walls (the_cell g c) AND 15"
      by simp
    also have "\<dots> \<le> 15"
      by (rule word_and_le1)
    finally show ?thesis .
  qed
  from g inside small cellWalls_out [of this' c] show ?thesis
    by (simp add: dims has_wall_bit)
qed

theorem cellWalls_mask_witness:
  "(\<exists>rnd stack k coord k' tr.
      generate rnd stack (reset (Maze_new 2 2)) k coord
        = Some (Inr ((reset (Maze_new 2 2))\<lparr>cells := Some (last trace_2x2)\<rparr>, k', tr))) \<and>
   cellWalls ((reset (Maze_new 2 2))\<lparr>cells := Some (last trace_2x2)\<rparr>)
     \<lparr>coord_x = 1, coord_y = 1\<rparr> = Inr 6 \<and>
   cellWalls ((reset (Maze_new 2 2))\<lparr>cells := Some (last trace_2x2)\<rparr>)
     \<lparr>coord_x = 2, coord_y = 0\<rparr> = Inl RangeError \<and>
   cellWalls (reset (Maze_new 2 2)) \<lparr>coord_x = 0, coord_y = 1\<rparr> = Inr 15 \<and>
   cellWalls (reset (Maze_new 2 2)) \<lparr>coord_x = 0, coord_y = -1\<rparr> = Inl RangeError"
proof -
  let ?m = "(reset (Maze_new 2 2))\<lparr>cells := Some (last trace_2x2)\<rparr>"
  have gen: "\<exists>rnd stack k coord k' tr.
      generate rnd stack (reset (Maze_new 2 2)) k coord = Some (Inr (?m, k', tr))"
    using generate_2x2 [OF zero_source(2), of 4 0] by blast
  then have a: "?m = reset (Maze_new 2 2) \<or>
    (\<exists>rnd stack k coord k' tr.
       generate rnd stack (reset (Maze_new 2 2)) k coord = Some (Inr (?m, k', tr)))"
    by (rule disjI2)
  have b: "reset (Maze_new 2 2) = reset (Maze_new 2 2) \<or>
    (\<exists>rnd stack k coord k' tr.
       generate rnd stack (reset (Maze_new 2 2)) k coord
         = Some (Inr (reset (Maze_new 2 2), k', tr)))"
    by simp
  have dims: "width ?m = 2" "height ?m = 2"
    "width (reset (Maze_new 2 2)) = 2" "height (reset (Maze_new 2 2)) = 2"
    by (simp_all add: reset_def Maze_new_def)
  have inb: "in_bounds 2 2 \<lparr>coord_x = 1, coord_y = 1\<rparr>"
    "\<not> in_bounds 2 2 \<lparr>coord_x = 2, coord_y = 0\<rparr>"
    "in_bounds 2 2 \<lparr>coord_x = 0, coord_y = 1\<rparr>"
    "\<not> in_bounds 2 2 \<lparr>coord_x = 0, coord_y = -1\<rparr>"
    by (simp_all add: in_bounds_def)
  have v1: "cellWalls ?m \<lparr>coord_x = 1, coord_y = 1\<rparr> = Inr 6"
    by code_simp
  have v2: "cellWalls (reset (Maze_new 2 2)) \<lparr>coord_x = 0, coord_y = 1\<rparr> = Inr 15"
    by code_simp
  from cellWalls_mask [OF a, of "\<lparr>coord_x = 2, coord_y = 0\<rparr>"] inb(2)
  have o1: "cellWalls ?m \<lparr>coord_x = 2, coord_y = 0\<rparr> = Inl RangeError"
    by (simp add: dims)
  from cellWalls_mask [OF b, of "\<lparr>coord_x = 0, coord_y = -1\<rparr>"] inb(4)
  have o2: "cellWalls (reset (Maze_new 2 2)) \<lparr>coord_x = 0, coord_y = -1\<rparr> = Inl RangeError"
    by (simp add: dims)
  from gen v1 o1 v2 o2 show ?thesis
    by blast
qed

end
